theory Spec2Isabelle
  imports Main "HOL-Library.Char_ord" "HOL-Library.List_Lexorder"
begin

section \<open>Code Shelf: the inventory and circulation engine of \<open>main.py\<close>\<close>

text \<open>
  The engine shares mutable objects: one \<open>Book\<close> object is held by the linked list, by the
  hash table and by every \<open>BorrowRecord\<close> made for it, and one \<open>BorrowRecord\<close> is held by the
  history stack and by the open-loan dictionary. The model therefore keeps the objects in
  an explicit store: a reference is an address, a field read goes through the store, and a
  field write updates the store, so that a write through one holder is seen by the others.
  Python never frees an object that is still referenced, so a store is a total function
  from addresses to objects together with the next free address.

  \<open>datetime.now()\<close> is an input: every reading of the clock is an argument of the
  operation that reads it. Python's builtin \<open>hash\<close> is a parameter \<open>h\<close> of the hash table
  operations (it is fixed within one process and differs between processes). Python's
  builtin \<open>str.lower\<close> is a parameter \<open>lower\<close> of the operations that call it: it follows
  the Unicode case mappings, which are no part of this program, and every result below
  holds whatever function it is.

  A string is the list of the bytes of its UTF-8 encoding. Two strings are equal exactly
  when their encodings are, and the order of the encodings, byte by byte, is the order of
  the strings by code point that Python compares with.
\<close>

type_synonym book_ref = nat
type_synonym record_ref = nat
type_synonym time = nat

subsection \<open>Book\<close>

record Book =
  book_id :: string
  title :: string
  author :: string
  year :: int
  is_borrowed :: bool
  borrowed_by :: "string option"
  borrow_date :: "time option"

definition Book_init :: "string \<Rightarrow> string \<Rightarrow> string \<Rightarrow> int \<Rightarrow> Book" where
  "Book_init bid t a y =
     \<lparr>book_id = bid, title = t, author = a, year = y,
      is_borrowed = False, borrowed_by = None, borrow_date = None\<rparr>"

subsection \<open>LinkedList\<close>

text \<open>
  The nodes of the list are private to it, so the chain \<open>head\<close>, \<open>next\<close>, ... is the list
  of the \<open>data\<close> references of its nodes, front first.
\<close>

record LinkedList =
  head :: "book_ref list"
  ll_size :: int

definition LinkedList_init :: LinkedList where
  "LinkedList_init = \<lparr>head = [], ll_size = 0\<rparr>"

text \<open>The walk to the last node of \<open>LinkedList.add_book\<close>.\<close>

fun append_node :: "book_ref list \<Rightarrow> book_ref \<Rightarrow> book_ref list" where
  "append_node [] b = [b]"
| "append_node (x # rest) b = x # append_node rest b"

definition LinkedList_add_book :: "LinkedList \<Rightarrow> book_ref \<Rightarrow> LinkedList" where
  "LinkedList_add_book ll b = ll\<lparr>head := append_node (head ll) b, ll_size := ll_size ll + 1\<rparr>"

text \<open>
  \<open>LinkedList.remove_book\<close> unlinks the first node whose book has the id; \<open>None\<close> is the
  \<open>return False\<close> of a walk that finds no such node.
\<close>

fun remove_node :: "(book_ref \<Rightarrow> Book) \<Rightarrow> book_ref list \<Rightarrow> string \<Rightarrow> book_ref list option" where
  "remove_node st [] bid = None"
| "remove_node st (x # rest) bid =
     (if book_id (st x) = bid then Some rest
      else (case remove_node st rest bid of None \<Rightarrow> None | Some rest' \<Rightarrow> Some (x # rest')))"

definition LinkedList_remove_book ::
  "(book_ref \<Rightarrow> Book) \<Rightarrow> LinkedList \<Rightarrow> string \<Rightarrow> bool \<times> LinkedList" where
  "LinkedList_remove_book st ll bid =
     (case remove_node st (head ll) bid of
        None \<Rightarrow> (False, ll)
      | Some rest \<Rightarrow> (True, ll\<lparr>head := rest, ll_size := ll_size ll - 1\<rparr>))"

fun search_nodes :: "(book_ref \<Rightarrow> Book) \<Rightarrow> book_ref list \<Rightarrow> string \<Rightarrow> book_ref option" where
  "search_nodes st [] bid = None"
| "search_nodes st (x # rest) bid =
     (if book_id (st x) = bid then Some x else search_nodes st rest bid)"

definition LinkedList_search_by_id ::
  "(book_ref \<Rightarrow> Book) \<Rightarrow> LinkedList \<Rightarrow> string \<Rightarrow> book_ref option" where
  "LinkedList_search_by_id st ll bid = search_nodes st (head ll) bid"

definition LinkedList_get_all_books :: "LinkedList \<Rightarrow> book_ref list" where
  "LinkedList_get_all_books ll = head ll"

text \<open>
  \<open>sort_by_title\<close> and \<open>sort_by_author\<close> return at once on a list of fewer than two nodes;
  otherwise they copy the books out, sort the copy with \<open>list.sort(key=...)\<close> and rebuild
  the list by \<open>add_book\<close>, one book at a time. \<open>list.sort\<close> is Python's builtin stable
  ascending sort; \<open>sort_key\<close> is the stable ascending sort of the HOL library.
\<close>

definition rebuild :: "book_ref list \<Rightarrow> LinkedList" where
  "rebuild bs = foldl LinkedList_add_book \<lparr>head = [], ll_size = 0\<rparr> bs"

definition title_key :: "(string \<Rightarrow> string) \<Rightarrow> (book_ref \<Rightarrow> Book) \<Rightarrow> book_ref \<Rightarrow> string" where
  "title_key lower st x = lower (title (st x))"

definition author_key :: "(string \<Rightarrow> string) \<Rightarrow> (book_ref \<Rightarrow> Book) \<Rightarrow> book_ref \<Rightarrow> string" where
  "author_key lower st x = lower (author (st x))"

definition LinkedList_sort_by_title ::
  "(string \<Rightarrow> string) \<Rightarrow> (book_ref \<Rightarrow> Book) \<Rightarrow> LinkedList \<Rightarrow> LinkedList" where
  "LinkedList_sort_by_title lower st ll =
     (case head ll of
        [] \<Rightarrow> ll
      | [x] \<Rightarrow> ll
      | _ \<Rightarrow> rebuild (sort_key (title_key lower st) (LinkedList_get_all_books ll)))"

definition LinkedList_sort_by_author ::
  "(string \<Rightarrow> string) \<Rightarrow> (book_ref \<Rightarrow> Book) \<Rightarrow> LinkedList \<Rightarrow> LinkedList" where
  "LinkedList_sort_by_author lower st ll =
     (case head ll of
        [] \<Rightarrow> ll
      | [x] \<Rightarrow> ll
      | _ \<Rightarrow> rebuild (sort_key (author_key lower st) (LinkedList_get_all_books ll)))"

subsection \<open>Stack and Queue\<close>

text \<open>Both hold a Python list \<open>items\<close>; the stack's top and the queue's back are its end.\<close>

definition Stack_push :: "'a list \<Rightarrow> 'a \<Rightarrow> 'a list" where
  "Stack_push items x = items @ [x]"

definition Stack_get_all_items :: "'a list \<Rightarrow> 'a list" where
  "Stack_get_all_items items = items"

definition Queue_is_empty :: "'a list \<Rightarrow> bool" where
  "Queue_is_empty items = (length items = 0)"

definition Queue_enqueue :: "'a list \<Rightarrow> 'a \<Rightarrow> 'a list" where
  "Queue_enqueue items x = items @ [x]"

subsection \<open>HashTable\<close>

text \<open>
  A bucket is a list of \<open>[key, value]\<close> pairs; the table is a list of \<open>size\<close> buckets.
  The constructor builds exactly \<open>size\<close> buckets and no method changes \<open>size\<close> or the
  number of buckets, so \<open>hash(key) % size\<close> is an index of the table in every table the
  program can hold (\<open>ht_ok\<close> below, which holds in every run); Python's \<open>%\<close> with a
  positive modulus is never negative, as \<open>mod\<close> on \<open>int\<close>.
\<close>

type_synonym bucket = "(string \<times> book_ref) list"

record HashTable =
  ht_size :: nat
  table :: "bucket list"

definition HashTable_init :: "nat \<Rightarrow> HashTable" where
  "HashTable_init n = \<lparr>ht_size = n, table = replicate n []\<rparr>"

definition HashTable_hash :: "(string \<Rightarrow> int) \<Rightarrow> HashTable \<Rightarrow> string \<Rightarrow> nat" where
  "HashTable_hash h ht key = nat (h key mod int (ht_size ht))"

fun bucket_insert :: "bucket \<Rightarrow> string \<Rightarrow> book_ref \<Rightarrow> bucket" where
  "bucket_insert [] key v = [(key, v)]"
| "bucket_insert ((k, w) # rest) key v =
     (if k = key then (k, v) # rest else (k, w) # bucket_insert rest key v)"

definition HashTable_insert ::
  "(string \<Rightarrow> int) \<Rightarrow> HashTable \<Rightarrow> string \<Rightarrow> book_ref \<Rightarrow> HashTable" where
  "HashTable_insert h ht key v =
     (let hash_key = HashTable_hash h ht key
      in ht\<lparr>table := (table ht)[hash_key := bucket_insert (table ht ! hash_key) key v]\<rparr>)"

fun bucket_get :: "bucket \<Rightarrow> string \<Rightarrow> book_ref option" where
  "bucket_get [] key = None"
| "bucket_get ((k, w) # rest) key = (if k = key then Some w else bucket_get rest key)"

definition HashTable_get :: "(string \<Rightarrow> int) \<Rightarrow> HashTable \<Rightarrow> string \<Rightarrow> book_ref option" where
  "HashTable_get h ht key = bucket_get (table ht ! HashTable_hash h ht key) key"

fun bucket_delete :: "bucket \<Rightarrow> string \<Rightarrow> bucket option" where
  "bucket_delete [] key = None"
| "bucket_delete ((k, w) # rest) key =
     (if k = key then Some rest
      else (case bucket_delete rest key of None \<Rightarrow> None | Some rest' \<Rightarrow> Some ((k, w) # rest')))"

definition HashTable_delete ::
  "(string \<Rightarrow> int) \<Rightarrow> HashTable \<Rightarrow> string \<Rightarrow> bool \<times> HashTable" where
  "HashTable_delete h ht key =
     (let hash_key = HashTable_hash h ht key
      in case bucket_delete (table ht ! hash_key) key of
           None \<Rightarrow> (False, ht)
         | Some b \<Rightarrow> (True, ht\<lparr>table := (table ht)[hash_key := b]\<rparr>))"

subsection \<open>BorrowRecord and WaitlistEntry\<close>

record BorrowRecord =
  book :: book_ref
  borrower :: string
  br_borrow_date :: time
  return_date :: "time option"

definition BorrowRecord_init :: "book_ref \<Rightarrow> string \<Rightarrow> time \<Rightarrow> BorrowRecord" where
  "BorrowRecord_init b who t =
     \<lparr>book = b, borrower = who, br_borrow_date = t, return_date = None\<rparr>"

record WaitlistEntry =
  wl_book_id :: string
  user_name :: string
  request_date :: time

definition WaitlistEntry_init :: "string \<Rightarrow> string \<Rightarrow> time \<Rightarrow> WaitlistEntry" where
  "WaitlistEntry_init bid who t = \<lparr>wl_book_id = bid, user_name = who, request_date = t\<rparr>"

subsection \<open>CodeShelfLibrary\<close>

text \<open>
  The five fields of the class, then the object store: the \<open>Book\<close> objects and the
  \<open>BorrowRecord\<close> objects with their next free addresses.
\<close>

record CodeShelfLibrary =
  books :: LinkedList
  borrow_history :: "record_ref list"
  waitlist :: "WaitlistEntry list"
  book_hash_table :: HashTable
  borrowed_books :: "string \<rightharpoonup> record_ref"
  book_store :: "book_ref \<Rightarrow> Book"
  book_next :: book_ref
  record_store :: "record_ref \<Rightarrow> BorrowRecord"
  record_next :: record_ref

text \<open>No object is allocated at the start; the cells of the stores hold a filler.\<close>

definition CodeShelfLibrary_init :: CodeShelfLibrary where
  "CodeShelfLibrary_init =
     \<lparr>books = LinkedList_init, borrow_history = [], waitlist = [],
      book_hash_table = HashTable_init 100, borrowed_books = Map.empty,
      book_store = (\<lambda>_. Book_init [] [] [] 0), book_next = 0,
      record_store = (\<lambda>_. BorrowRecord_init 0 [] 0), record_next = 0\<rparr>"

definition add_book ::
  "(string \<Rightarrow> int) \<Rightarrow> string \<Rightarrow> string \<Rightarrow> string \<Rightarrow> int \<Rightarrow> CodeShelfLibrary
     \<Rightarrow> bool \<times> CodeShelfLibrary" where
  "add_book h bid t a y s =
     (case LinkedList_search_by_id (book_store s) (books s) bid of
        Some b \<Rightarrow> (False, s)
      | None \<Rightarrow>
          (let b = book_next s
           in (True,
               s\<lparr>book_store := (book_store s)(b := Book_init bid t a y),
                 book_next := Suc b,
                 books := LinkedList_add_book (books s) b,
                 book_hash_table := HashTable_insert h (book_hash_table s) bid b\<rparr>)))"

definition remove_book ::
  "(string \<Rightarrow> int) \<Rightarrow> string \<Rightarrow> CodeShelfLibrary \<Rightarrow> bool \<times> CodeShelfLibrary" where
  "remove_book h bid s =
     (case LinkedList_search_by_id (book_store s) (books s) bid of
        None \<Rightarrow> (False, s)
      | Some b \<Rightarrow>
          if is_borrowed (book_store s b) then (False, s)
          else (True,
                s\<lparr>books := snd (LinkedList_remove_book (book_store s) (books s) bid),
                  book_hash_table := snd (HashTable_delete h (book_hash_table s) bid)\<rparr>))"

definition search_by_id :: "(string \<Rightarrow> int) \<Rightarrow> CodeShelfLibrary \<Rightarrow> string \<Rightarrow> book_ref option" where
  "search_by_id h s bid = HashTable_get h (book_hash_table s) bid"

text \<open>
  \<open>borrow_book\<close> reads the clock once on the waitlist path (\<open>t1\<close>) and twice on the
  borrowing path (\<open>t1\<close> for the book, \<open>t2\<close> for the record).
\<close>

definition borrow_book ::
  "(string \<Rightarrow> int) \<Rightarrow> time \<Rightarrow> time \<Rightarrow> string \<Rightarrow> string \<Rightarrow> CodeShelfLibrary
     \<Rightarrow> bool \<times> CodeShelfLibrary" where
  "borrow_book h t1 t2 bid who s =
     (case search_by_id h s bid of
        None \<Rightarrow> (False, s)
      | Some b \<Rightarrow>
          if is_borrowed (book_store s b)
          then (False, s\<lparr>waitlist := Queue_enqueue (waitlist s) (WaitlistEntry_init bid who t1)\<rparr>)
          else
            (let r = record_next s
             in (True,
                 s\<lparr>book_store := (book_store s)
                     (b := (book_store s b)
                        \<lparr>is_borrowed := True, borrowed_by := Some who, borrow_date := Some t1\<rparr>),
                   record_store := (record_store s)(r := BorrowRecord_init b who t2),
                   record_next := Suc r,
                   borrow_history := Stack_push (borrow_history s) r,
                   borrowed_books := (borrowed_books s)(bid \<mapsto> r)\<rparr>)))"

text \<open>
  The waitlist scan of \<open>return_book\<close>: the first loop empties the waitlist into
  \<open>temp_queue\<close>, keeping aside the first entry for the returned id; the second loop moves
  \<open>temp_queue\<close> back. Both loops take one entry from the front in each round.
\<close>

fun scan_waitlist ::
  "string \<Rightarrow> WaitlistEntry list \<Rightarrow> WaitlistEntry list \<Rightarrow> WaitlistEntry option
     \<Rightarrow> WaitlistEntry list \<times> WaitlistEntry list \<times> WaitlistEntry option" where
  "scan_waitlist bid [] temp_queue found_waiting = ([], temp_queue, found_waiting)"
| "scan_waitlist bid (entry # rest) temp_queue found_waiting =
     (if wl_book_id entry = bid \<and> found_waiting = None
      then scan_waitlist bid rest temp_queue (Some entry)
      else scan_waitlist bid rest (Queue_enqueue temp_queue entry) found_waiting)"

fun restore_queue :: "WaitlistEntry list \<Rightarrow> WaitlistEntry list \<Rightarrow> WaitlistEntry list" where
  "restore_queue wl [] = wl"
| "restore_queue wl (entry # rest) = restore_queue (Queue_enqueue wl entry) rest"

definition check_waitlist ::
  "string \<Rightarrow> WaitlistEntry list \<Rightarrow> WaitlistEntry list \<times> WaitlistEntry option" where
  "check_waitlist bid wl =
     (if \<not> Queue_is_empty wl
      then (case scan_waitlist bid wl [] None of
              (wl', temp_queue, found_waiting) \<Rightarrow> (restore_queue wl' temp_queue, found_waiting))
      else (wl, None))"

text \<open>
  \<open>return_book\<close> gives, besides its boolean, the title and user name of the message
  "Book ... is now available for ..." when it prints one.
\<close>

definition return_book ::
  "(string \<Rightarrow> int) \<Rightarrow> time \<Rightarrow> string \<Rightarrow> CodeShelfLibrary
     \<Rightarrow> (bool \<times> (string \<times> string) option) \<times> CodeShelfLibrary" where
  "return_book h now bid s =
     (case search_by_id h s bid of
        None \<Rightarrow> ((False, None), s)
      | Some b \<Rightarrow>
          if \<not> is_borrowed (book_store s b) then ((False, None), s)
          else
            (let s1 = s\<lparr>book_store := (book_store s)
                         (b := (book_store s b)
                            \<lparr>is_borrowed := False, borrowed_by := None, borrow_date := None\<rparr>)\<rparr>;
                 s2 = (case borrowed_books s1 bid of
                         None \<Rightarrow> s1
                       | Some r \<Rightarrow>
                           s1\<lparr>record_store := (record_store s1)
                                (r := (record_store s1 r)\<lparr>return_date := Some now\<rparr>),
                              borrowed_books := (borrowed_books s1)(bid := None)\<rparr>);
                 (wl, found_waiting) = check_waitlist bid (waitlist s2)
             in ((True,
                  (case found_waiting of
                     None \<Rightarrow> None
                   | Some entry \<Rightarrow> Some (title (book_store s2 b), user_name entry))),
                 s2\<lparr>waitlist := wl\<rparr>)))"

text \<open>
  \<open>display_all_books\<close> sorts the registry when asked to, then prints one row for each
  book; the rows are the result here.
\<close>

definition display_all_books ::
  "(string \<Rightarrow> string) \<Rightarrow> string \<Rightarrow> CodeShelfLibrary \<Rightarrow> Book list \<times> CodeShelfLibrary" where
  "display_all_books lower sort_by s =
     (let s' = (if lower sort_by = ''title''
                then s\<lparr>books := LinkedList_sort_by_title lower (book_store s) (books s)\<rparr>
                else if lower sort_by = ''author''
                then s\<lparr>books := LinkedList_sort_by_author lower (book_store s) (books s)\<rparr>
                else s)
      in (map (book_store s') (LinkedList_get_all_books (books s')), s'))"

text \<open>
  \<open>display_borrow_history\<close> prints, for each record of \<open>reversed(records)\<close>, the book's
  title, the borrower, the borrow date and the return date if there is one.
\<close>

definition history_row :: "CodeShelfLibrary \<Rightarrow> record_ref \<Rightarrow> string \<times> string \<times> time \<times> time option" where
  "history_row s r =
     (title (book_store s (book (record_store s r))), borrower (record_store s r),
      br_borrow_date (record_store s r), return_date (record_store s r))"

definition display_borrow_history ::
  "CodeShelfLibrary \<Rightarrow> (string \<times> string \<times> time \<times> time option) list" where
  "display_borrow_history s =
     map (history_row s) (rev (Stack_get_all_items (borrow_history s)))"

subsection \<open>Sequences of engine operations\<close>

datatype operation =
    AddBook string string string int
  | RemoveBook string
  | BorrowBook string string time time
  | ReturnBook string time
  | DisplayAllBooks string

fun step ::
  "(string \<Rightarrow> int) \<Rightarrow> (string \<Rightarrow> string) \<Rightarrow> CodeShelfLibrary \<Rightarrow> operation
     \<Rightarrow> CodeShelfLibrary" where
  "step h lower s (AddBook bid t a y) = snd (add_book h bid t a y s)"
| "step h lower s (RemoveBook bid) = snd (remove_book h bid s)"
| "step h lower s (BorrowBook bid who t1 t2) = snd (borrow_book h t1 t2 bid who s)"
| "step h lower s (ReturnBook bid now) = snd (return_book h now bid s)"
| "step h lower s (DisplayAllBooks sort_by) = snd (display_all_books lower sort_by s)"

definition run ::
  "(string \<Rightarrow> int) \<Rightarrow> (string \<Rightarrow> string) \<Rightarrow> operation list \<Rightarrow> CodeShelfLibrary" where
  "run h lower ops = foldl (step h lower) CodeShelfLibrary_init ops"

subsection \<open>What the invariants speak about\<close>

text \<open>
  The ids of the registry are the \<open>book_id\<close>s of the books of \<open>get_all_books\<close>, in the
  order of the list. The open events of an id are the records of the borrow history, in
  the order of \<open>get_all_items\<close>, whose \<open>return_date\<close> is unset and whose book has the id.
\<close>

definition registry_ids :: "CodeShelfLibrary \<Rightarrow> string list" where
  "registry_ids s = map (\<lambda>b. book_id (book_store s b)) (LinkedList_get_all_books (books s))"

definition record_book_id :: "CodeShelfLibrary \<Rightarrow> record_ref \<Rightarrow> string" where
  "record_book_id s r = book_id (book_store s (book (record_store s r)))"

definition open_events :: "CodeShelfLibrary \<Rightarrow> string \<Rightarrow> record_ref list" where
  "open_events s bid =
     filter (\<lambda>r. return_date (record_store s r) = None \<and> record_book_id s r = bid)
       (Stack_get_all_items (borrow_history s))"

text \<open>
  The hash table is well formed when it has \<open>size\<close> buckets, \<open>size\<close> is positive and no
  bucket holds a key twice.
\<close>

definition ht_ok :: "HashTable \<Rightarrow> bool" where
  "ht_ok ht \<longleftrightarrow> 0 < ht_size ht \<and> length (table ht) = ht_size ht
     \<and> (\<forall>i < length (table ht). distinct (map fst (table ht ! i)))"

text \<open>
  The registry and the hash table agree: the ids of the registry are distinct, its books
  are allocated, and the hash table finds \<open>b\<close> for \<open>k\<close> exactly when \<open>b\<close> is a book of the
  registry with id \<open>k\<close>.
\<close>

definition consistent :: "(string \<Rightarrow> int) \<Rightarrow> CodeShelfLibrary \<Rightarrow> bool" where
  "consistent h s \<longleftrightarrow>
     ht_ok (book_hash_table s) \<and> distinct (registry_ids s)
     \<and> (\<forall>b\<in>set (head (books s)). b < book_next s)
     \<and> (\<forall>k b. search_by_id h s k = Some b \<longleftrightarrow>
                b \<in> set (head (books s)) \<and> book_id (book_store s b) = k)"

text \<open>
  The open-loan table, the history and the flags agree: the history holds each record
  once; the table maps an id to a record of the history that is open, for a book of the
  registry that has the id and is borrowed; every open record of the history is the one
  the table holds for its id; and every borrowed book of the registry has an entry.
\<close>

definition loans_ok :: "CodeShelfLibrary \<Rightarrow> bool" where
  "loans_ok s \<longleftrightarrow>
     distinct (borrow_history s)
     \<and> (\<forall>r\<in>set (borrow_history s). r < record_next s \<and> book (record_store s r) < book_next s)
     \<and> (\<forall>k r. borrowed_books s k = Some r \<longrightarrow>
           r \<in> set (borrow_history s) \<and> return_date (record_store s r) = None
           \<and> book (record_store s r) \<in> set (head (books s))
           \<and> record_book_id s r = k \<and> is_borrowed (book_store s (book (record_store s r))))
     \<and> (\<forall>r\<in>set (borrow_history s). return_date (record_store s r) = None \<longrightarrow>
           borrowed_books s (record_book_id s r) = Some r)
     \<and> (\<forall>b\<in>set (head (books s)). is_borrowed (book_store s b) \<longrightarrow>
           borrowed_books s (book_id (book_store s b)) \<noteq> None)"

subsection \<open>Concrete runs\<close>

text \<open>
  A hash function and a lowering function to run the engine on concrete inputs.
  \<open>ascii_lower\<close> moves the letters A to Z to a to z and keeps every other byte; it is what
  \<open>str.lower\<close> does on ASCII text, and the runs below hold ASCII text only.
\<close>

definition hash0 :: "string \<Rightarrow> int" where
  "hash0 key = int (length key) - 3"

definition lower_char :: "char \<Rightarrow> char" where
  "lower_char c =
     (if CHR ''A'' \<le> c \<and> c \<le> CHR ''Z'' then char_of (of_char c + (32::nat)) else c)"

definition ascii_lower :: "string \<Rightarrow> string" where
  "ascii_lower s = map lower_char s"

definition demo_ops :: "operation list" where
  "demo_ops =
     [AddBook ''A'' ''Zebra Book'' ''Zed'' 2020, AddBook ''B'' ''alpha book'' ''Bob'' 2021,
      BorrowBook ''A'' ''u1'' 4 5, BorrowBook ''B'' ''u2'' 6 7, ReturnBook ''A'' 8]"

definition demo_waitlist_ops :: "operation list" where
  "demo_waitlist_ops =
     [AddBook ''A'' ''Zebra Book'' ''Zed'' 2020, AddBook ''B'' ''alpha book'' ''Bob'' 2021,
      BorrowBook ''A'' ''u0'' 1 1, BorrowBook ''B'' ''u0'' 2 2,
      BorrowBook ''A'' ''u1'' 3 3, BorrowBook ''B'' ''u2'' 4 4, BorrowBook ''A'' ''u3'' 5 5]"

definition demo_sort_ops :: "operation list" where
  "demo_sort_ops =
     [AddBook ''D1'' ''beta'' ''Zed'' 2020, AddBook ''D2'' ''Alpha'' ''bob'' 2021,
      AddBook ''D3'' ''BETA'' ''Bob'' 2022]"

definition demo_two_books :: "operation list" where
  "demo_two_books =
     [AddBook ''A'' ''Zebra Book'' ''Zed'' 2020, AddBook ''B'' ''alpha book'' ''Bob'' 2021]"

definition demo_mixed_ops :: "operation list" where
  "demo_mixed_ops =
     [AddBook ''A'' ''Zebra Book'' ''Zed'' 2020, AddBook ''B'' ''alpha book'' ''Bob'' 2021,
      AddBook ''CC'' ''Gamma'' ''Cy'' 2022, RemoveBook ''A'', AddBook ''B'' ''again'' ''Bob'' 2023,
      BorrowBook ''B'' ''u1'' 4 5, RemoveBook ''B'', AddBook ''A'' ''Zebra Two'' ''Zed'' 2024]"

lemmas engine_defs =
  run_def add_book_def remove_book_def borrow_book_def return_book_def search_by_id_def
  display_all_books_def display_borrow_history_def history_row_def
  CodeShelfLibrary_init_def LinkedList_init_def HashTable_init_def
  HashTable_get_def HashTable_insert_def HashTable_delete_def HashTable_hash_def hash0_def
  LinkedList_search_by_id_def LinkedList_add_book_def LinkedList_remove_book_def
  LinkedList_get_all_books_def Book_init_def BorrowRecord_init_def WaitlistEntry_init_def
  Stack_push_def Stack_get_all_items_def Queue_enqueue_def Queue_is_empty_def
  check_waitlist_def Let_def

section \<open>The containers\<close>

lemma append_node_conv: "append_node xs b = xs @ [b]"
  by (induction xs) simp_all

lemma foldl_add_book:
  "foldl LinkedList_add_book ll bs =
     ll\<lparr>head := head ll @ bs, ll_size := ll_size ll + int (length bs)\<rparr>"
  by (induction bs arbitrary: ll) (simp_all add: LinkedList_add_book_def append_node_conv)

lemma head_rebuild: "head (rebuild bs) = bs"
  by (simp add: rebuild_def foldl_add_book)

lemma head_sort_by_title:
  "head (LinkedList_sort_by_title lower st ll) = sort_key (title_key lower st) (head ll)"
  by (simp add: LinkedList_sort_by_title_def head_rebuild LinkedList_get_all_books_def
      split: list.splits)

lemma head_sort_by_author:
  "head (LinkedList_sort_by_author lower st ll) = sort_key (author_key lower st) (head ll)"
  by (simp add: LinkedList_sort_by_author_def head_rebuild LinkedList_get_all_books_def
      split: list.splits)

lemma title_key_eq: "title_key lower st = (\<lambda>x. lower (title (st x)))"
  by (simp add: fun_eq_iff title_key_def)

lemma author_key_eq: "author_key lower st = (\<lambda>x. lower (author (st x)))"
  by (simp add: fun_eq_iff author_key_def)

lemma lower_demo:
  "ascii_lower ''Title'' = ''title''" "ascii_lower ''AUTHOR'' = ''author''"
  "ascii_lower ''beta'' = ''beta''" "ascii_lower ''Alpha'' = ''alpha''" "ascii_lower ''BETA'' = ''beta''"
  "ascii_lower ''Zed'' = ''zed''" "ascii_lower ''bob'' = ''bob''" "ascii_lower ''Bob'' = ''bob''"
  by code_simp+

lemma order_demo:
  "''alpha'' \<le> ''beta''" "\<not> ''beta'' \<le> ''alpha''" "''bob'' \<le> ''zed''" "\<not> ''zed'' \<le> ''bob''"
  by code_simp+

lemma scan_waitlist_found:
  "scan_waitlist bid wl temp (Some e) = ([], temp @ wl, Some e)"
  by (induction wl arbitrary: temp) (simp_all add: Queue_enqueue_def)

lemma scan_waitlist_no_match:
  "\<forall>x\<in>set wl. wl_book_id x \<noteq> bid \<Longrightarrow>
   scan_waitlist bid wl temp None = ([], temp @ wl, None)"
  by (induction wl arbitrary: temp) (simp_all add: Queue_enqueue_def)

lemma scan_waitlist_match:
  "\<forall>x\<in>set pre. wl_book_id x \<noteq> bid \<Longrightarrow> wl_book_id e = bid \<Longrightarrow>
   scan_waitlist bid (pre @ e # post) temp None = ([], temp @ pre @ post, Some e)"
  by (induction pre arbitrary: temp) (simp_all add: Queue_enqueue_def scan_waitlist_found)

lemma restore_queue_append: "restore_queue wl temp = wl @ temp"
  by (induction temp arbitrary: wl) (simp_all add: Queue_enqueue_def)

lemma check_waitlist_no_match:
  "\<forall>x\<in>set wl. wl_book_id x \<noteq> bid \<Longrightarrow> check_waitlist bid wl = (wl, None)"
  by (simp add: check_waitlist_def scan_waitlist_no_match restore_queue_append)

lemma check_waitlist_match:
  "\<forall>x\<in>set pre. wl_book_id x \<noteq> bid \<Longrightarrow> wl_book_id e = bid \<Longrightarrow>
   check_waitlist bid (pre @ e # post) = (pre @ post, Some e)"
  by (simp add: check_waitlist_def scan_waitlist_match restore_queue_append Queue_is_empty_def)

lemma return_book_True_waitlist:
  "fst (fst (return_book h now bid s)) \<Longrightarrow>
   waitlist (snd (return_book h now bid s)) = fst (check_waitlist bid (waitlist s))"
  by (auto simp: return_book_def Let_def split: option.splits if_splits prod.splits)

lemma return_book_False_state:
  "\<not> fst (fst (return_book h now bid s)) \<Longrightarrow> snd (return_book h now bid s) = s"
  by (auto simp: return_book_def Let_def split: option.splits if_splits prod.splits)

lemma check_waitlist_length:
  "length wl \<le> Suc (length (fst (check_waitlist bid wl)))"
proof (cases "\<exists>x\<in>set wl. wl_book_id x = bid")
  case True
  from split_list_first_prop [OF this]
  obtain pre e post where "wl = pre @ e # post" "wl_book_id e = bid"
    "\<forall>x\<in>set pre. wl_book_id x \<noteq> bid"
    by blast
  then show ?thesis by (simp add: check_waitlist_match)
next
  case False
  then show ?thesis by (simp add: check_waitlist_no_match)
qed

lemma return_book_waitlist_length:
  "length (waitlist s) \<le> Suc (length (waitlist (snd (return_book h now bid s))))"
proof (cases "fst (fst (return_book h now bid s))")
  case True
  then show ?thesis by (simp add: return_book_True_waitlist check_waitlist_length)
next
  case False
  then show ?thesis by (simp add: return_book_False_state)
qed

subsection \<open>The hash table\<close>

lemma bucket_get_insert:
  "bucket_get (bucket_insert b k v) k' = (if k' = k then Some v else bucket_get b k')"
  by (induction b k v rule: bucket_insert.induct) auto

lemma keys_bucket_insert:
  "set (map fst (bucket_insert b k v)) = insert k (set (map fst b))"
  by (induction b k v rule: bucket_insert.induct) auto

lemma distinct_bucket_insert:
  "distinct (map fst b) \<Longrightarrow> distinct (map fst (bucket_insert b k v))"
proof (induction b k v rule: bucket_insert.induct)
  case (1 key v) then show ?case by simp
next
  case (2 k w rest key v)
  then show ?case using keys_bucket_insert [of rest key v] by auto
qed

lemma bucket_get_None: "bucket_get b k = None \<longleftrightarrow> k \<notin> fst ` set b"
  by (induction b k rule: bucket_get.induct) auto

lemma bucket_delete_Some:
  "bucket_delete b k = Some b' \<Longrightarrow> distinct (map fst b) \<Longrightarrow>
   distinct (map fst b') \<and> (\<forall>k'. bucket_get b' k' = (if k' = k then None else bucket_get b k'))"
proof (induction b k arbitrary: b' rule: bucket_delete.induct)
  case (1 key) then show ?case by simp
next
  case (2 k w rest key)
  show ?case
  proof (cases "k = key")
    case True
    with 2 show ?thesis by (auto simp: bucket_get_None)
  next
    case False
    with 2 obtain r' where r: "bucket_delete rest key = Some r'" and b': "b' = (k, w) # r'"
      by (auto split: option.splits)
    from 2 False r have ih: "distinct (map fst r')"
      "\<And>k'. bucket_get r' k' = (if k' = key then None else bucket_get rest k')" by auto
    have "k \<notin> fst ` set r'"
    proof
      assume "k \<in> fst ` set r'"
      then have "bucket_get r' k \<noteq> None" by (simp add: bucket_get_None)
      with ih(2) False have "bucket_get rest k \<noteq> None" by auto
      then have "k \<in> fst ` set rest" by (simp add: bucket_get_None)
      with 2(3) show False by auto
    qed
    with ih b' False show ?thesis by auto
  qed
qed

lemma bucket_delete_None: "bucket_delete b k = None \<Longrightarrow> bucket_get b k = None"
  by (induction b k rule: bucket_delete.induct) (auto split: option.splits if_splits)

lemma hash_less: "0 < ht_size ht \<Longrightarrow> HashTable_hash h ht k < ht_size ht"
  by (simp add: HashTable_hash_def nat_less_iff)

lemma hash_table_upd [simp]: "HashTable_hash h (ht\<lparr>table := t\<rparr>) k = HashTable_hash h ht k"
  by (simp add: HashTable_hash_def)

lemma ht_ok_init: "0 < n \<Longrightarrow> ht_ok (HashTable_init n)"
  by (simp add: ht_ok_def HashTable_init_def)

lemma get_init: "0 < n \<Longrightarrow> HashTable_get h (HashTable_init n) k = None"
  using hash_less [of "HashTable_init n" h k]
  by (simp add: HashTable_get_def HashTable_init_def)

lemma ht_ok_insert: "ht_ok ht \<Longrightarrow> ht_ok (HashTable_insert h ht k v)"
  using hash_less [of ht h k]
  by (auto simp: ht_ok_def HashTable_insert_def Let_def nth_list_update distinct_bucket_insert)

lemma get_insert:
  "ht_ok ht \<Longrightarrow>
   HashTable_get h (HashTable_insert h ht k v) k' = (if k' = k then Some v else HashTable_get h ht k')"
  using hash_less [of ht h k] hash_less [of ht h k']
  by (auto simp: ht_ok_def HashTable_get_def HashTable_insert_def Let_def nth_list_update
      bucket_get_insert)

lemma ht_ok_delete: "ht_ok ht \<Longrightarrow> ht_ok (snd (HashTable_delete h ht k))"
  using hash_less [of ht h k]
  by (auto simp: ht_ok_def HashTable_delete_def Let_def nth_list_update
      split: option.splits dest: bucket_delete_Some)

lemma get_delete:
  "ht_ok ht \<Longrightarrow>
   HashTable_get h (snd (HashTable_delete h ht k)) k' = (if k' = k then None else HashTable_get h ht k')"
  using hash_less [of ht h k] hash_less [of ht h k']
  by (auto simp: ht_ok_def HashTable_get_def HashTable_delete_def Let_def nth_list_update
      split: option.splits dest: bucket_delete_Some bucket_delete_None)

subsection \<open>The linked list\<close>

lemma search_nodes_None:
  "search_nodes st xs k = None \<longleftrightarrow> k \<notin> (\<lambda>b. book_id (st b)) ` set xs"
  by (induction xs) auto

lemma search_nodes_Some:
  "search_nodes st xs k = Some b \<Longrightarrow> b \<in> set xs \<and> book_id (st b) = k"
  by (induction xs) (auto split: if_splits)

lemma search_nodes_distinct:
  "distinct (map (\<lambda>b. book_id (st b)) xs) \<Longrightarrow> b \<in> set xs \<Longrightarrow>
   search_nodes st xs (book_id (st b)) = Some b"
  by (induction xs) auto

lemma remove_node_remove1:
  "search_nodes st xs k = Some b \<Longrightarrow> remove_node st xs k = Some (remove1 b xs)"
proof (induction xs)
  case Nil then show ?case by simp
next
  case (Cons x xs)
  show ?case
  proof (cases "book_id (st x) = k")
    case True with Cons.prems show ?thesis by simp
  next
    case False
    with Cons.prems have s: "search_nodes st xs k = Some b" by simp
    from search_nodes_Some [OF s] False have "x \<noteq> b" by auto
    with False Cons.IH [OF s] show ?thesis by simp
  qed
qed

lemma distinct_map_remove1:
  "distinct (map f xs) \<Longrightarrow> distinct (map f (remove1 b xs))"
  by (auto simp: distinct_map intro: inj_on_subset dest: notin_set_remove1)

section \<open>The registry and the hash table agree in every run\<close>

lemma consistentD:
  assumes "consistent h s"
  shows "ht_ok (book_hash_table s)"
    and "distinct (map (\<lambda>b. book_id (book_store s b)) (head (books s)))"
    and "\<And>b. b \<in> set (head (books s)) \<Longrightarrow> b < book_next s"
    and "\<And>k b. search_by_id h s k = Some b \<longleftrightarrow>
           b \<in> set (head (books s)) \<and> book_id (book_store s b) = k"
  using assms
  unfolding consistent_def registry_ids_def LinkedList_get_all_books_def by blast+

lemma same_id_same_book:
  assumes "consistent h s" and "b \<in> set (head (books s))" and "c \<in> set (head (books s))"
    and "book_id (book_store s b) = book_id (book_store s c)"
  shows "b = c"
  using consistentD(2) [OF assms(1)] assms(2-4) by (auto simp: distinct_map dest: inj_onD)

lemma consistent_init: "consistent h CodeShelfLibrary_init"
  by (simp add: consistent_def CodeShelfLibrary_init_def LinkedList_init_def registry_ids_def
      LinkedList_get_all_books_def ht_ok_init search_by_id_def get_init)

lemma consistent_add_book:
  assumes "consistent h s"
  shows "consistent h (snd (add_book h bid t a y s))"
proof (cases "LinkedList_search_by_id (book_store s) (books s) bid")
  case (Some b)
  with assms show ?thesis by (simp add: add_book_def)
next
  case None
  define s' where "s' = snd (add_book h bid t a y s)"
  from None have fresh: "bid \<notin> (\<lambda>b. book_id (book_store s b)) ` set (head (books s))"
    by (simp add: LinkedList_search_by_id_def search_nodes_None)
  from assms have ok: "ht_ok (book_hash_table s)"
    and d: "distinct (map (\<lambda>b. book_id (book_store s b)) (head (books s)))"
    and lt: "\<forall>b\<in>set (head (books s)). b < book_next s"
    and g: "\<And>k b. HashTable_get h (book_hash_table s) k = Some b \<longleftrightarrow>
                b \<in> set (head (books s)) \<and> book_id (book_store s b) = k"
    by (simp_all add: consistent_def registry_ids_def LinkedList_get_all_books_def search_by_id_def)
  have hd': "head (books s') = head (books s) @ [book_next s]"
    and st': "\<And>b. b \<noteq> book_next s \<Longrightarrow> book_store s' b = book_store s b"
    and new: "book_id (book_store s' (book_next s)) = bid"
    and next': "book_next s' = Suc (book_next s)"
    and tab': "book_hash_table s' = HashTable_insert h (book_hash_table s) bid (book_next s)"
    using None
    by (simp_all add: s'_def add_book_def Let_def LinkedList_add_book_def append_node_conv
        Book_init_def)
  have old: "\<And>b. b \<in> set (head (books s)) \<Longrightarrow> book_store s' b = book_store s b"
    using lt st' by auto
  have ids: "map (\<lambda>b. book_id (book_store s' b)) (head (books s))
               = map (\<lambda>b. book_id (book_store s b)) (head (books s))"
    using old by simp
  have "ht_ok (book_hash_table s')"
    using ok by (simp add: tab' ht_ok_insert)
  moreover have "distinct (registry_ids s')"
    using d fresh by (simp add: registry_ids_def LinkedList_get_all_books_def hd' ids new)
  moreover have "\<forall>b\<in>set (head (books s')). b < book_next s'"
    using lt by (auto simp: hd' next')
  moreover have "\<forall>k b. search_by_id h s' k = Some b \<longleftrightarrow>
            b \<in> set (head (books s')) \<and> book_id (book_store s' b) = k"
  proof (intro allI)
    fix k b
    show "search_by_id h s' k = Some b \<longleftrightarrow>
            b \<in> set (head (books s')) \<and> book_id (book_store s' b) = k"
    proof (cases "b = book_next s")
      case True
      with lt have "b \<notin> set (head (books s))" by auto
      with True show ?thesis
        using g [of k b] by (auto simp: search_by_id_def tab' get_insert [OF ok] hd' new)
    next
      case False
      then have "book_store s' b = book_store s b" by (rule st')
      with False fresh show ?thesis
        using g [of k b] by (auto simp: search_by_id_def tab' get_insert [OF ok] hd')
    qed
  qed
  ultimately show ?thesis unfolding consistent_def s'_def by blast
qed

lemma consistent_remove_book:
  assumes "consistent h s"
  shows "consistent h (snd (remove_book h bid s))"
proof (cases "LinkedList_search_by_id (book_store s) (books s) bid")
  case None
  with assms show ?thesis by (simp add: remove_book_def)
next
  case (Some x)
  show ?thesis
  proof (cases "is_borrowed (book_store s x)")
    case True
    with Some assms show ?thesis by (simp add: remove_book_def)
  next
    case False
    define s' where "s' = snd (remove_book h bid s)"
    from Some have sn: "search_nodes (book_store s) (head (books s)) bid = Some x"
      by (simp add: LinkedList_search_by_id_def)
    from search_nodes_Some [OF sn] have x: "x \<in> set (head (books s))" "book_id (book_store s x) = bid"
      by simp_all
    from assms have ok: "ht_ok (book_hash_table s)"
      and d: "distinct (map (\<lambda>b. book_id (book_store s b)) (head (books s)))"
      and lt: "\<forall>b\<in>set (head (books s)). b < book_next s"
      and g: "\<And>k b. HashTable_get h (book_hash_table s) k = Some b \<longleftrightarrow>
                  b \<in> set (head (books s)) \<and> book_id (book_store s b) = k"
      by (simp_all add: consistent_def registry_ids_def LinkedList_get_all_books_def search_by_id_def)
    have hd': "head (books s') = remove1 x (head (books s))"
      and st': "book_store s' = book_store s"
      and next': "book_next s' = book_next s"
      and tab': "book_hash_table s' = snd (HashTable_delete h (book_hash_table s) bid)"
      using Some False remove_node_remove1 [OF sn]
      by (simp_all add: s'_def remove_book_def LinkedList_remove_book_def)
    from d have dx: "distinct (head (books s))" by (simp add: distinct_map)
    have "ht_ok (book_hash_table s')"
      using ok by (simp add: tab' ht_ok_delete)
    moreover have "distinct (registry_ids s')"
      using d by (simp add: registry_ids_def LinkedList_get_all_books_def hd' st' distinct_map_remove1)
    moreover have "\<forall>b\<in>set (head (books s')). b < book_next s'"
      using lt dx by (auto simp: hd' next')
    moreover have "\<forall>k b. search_by_id h s' k = Some b \<longleftrightarrow>
              b \<in> set (head (books s')) \<and> book_id (book_store s' b) = k"
    proof (intro allI)
      fix k b
      have uniq: "b \<in> set (head (books s)) \<Longrightarrow> book_id (book_store s b) = bid \<Longrightarrow> b = x"
        using d x by (auto simp: distinct_map dest: inj_onD)
      show "search_by_id h s' k = Some b \<longleftrightarrow>
              b \<in> set (head (books s')) \<and> book_id (book_store s' b) = k"
        using g [of k b] uniq x dx
        by (auto simp: search_by_id_def tab' get_delete [OF ok] hd' st')
    qed
    ultimately show ?thesis unfolding consistent_def s'_def by blast
  qed
qed

lemma consistent_frame:
  assumes "consistent h s"
    and "book_hash_table s' = book_hash_table s"
    and "set (head (books s')) = set (head (books s))"
    and "distinct (head (books s')) = distinct (head (books s))"
    and "\<And>b. book_id (book_store s' b) = book_id (book_store s b)"
    and "book_next s' = book_next s"
  shows "consistent h s'"
  using assms
  by (simp add: consistent_def registry_ids_def LinkedList_get_all_books_def search_by_id_def
      distinct_map)

lemma consistent_borrow_book:
  assumes "consistent h s"
  shows "consistent h (snd (borrow_book h t1 t2 bid who s))"
  by (rule consistent_frame [OF assms])
    (simp_all add: borrow_book_def Let_def split: option.splits)

lemma consistent_return_book:
  assumes "consistent h s"
  shows "consistent h (snd (return_book h now bid s))"
  by (rule consistent_frame [OF assms])
    (simp_all add: return_book_def Let_def split: option.splits prod.splits)

lemma consistent_display_all_books:
  assumes "consistent h s"
  shows "consistent h (snd (display_all_books lower sort_by s))"
  by (rule consistent_frame [OF assms])
    (simp_all add: display_all_books_def Let_def head_sort_by_title head_sort_by_author)

lemma consistent_step: "consistent h s \<Longrightarrow> consistent h (step h lower s op)"
  by (cases op)
    (simp_all add: consistent_add_book consistent_remove_book consistent_borrow_book
      consistent_return_book consistent_display_all_books)

lemma consistent_foldl: "consistent h s \<Longrightarrow> consistent h (foldl (step h lower) s ops)"
  by (induction ops arbitrary: s) (simp_all add: consistent_step)

lemma consistent_run: "consistent h (run h lower ops)"
  by (simp add: run_def consistent_foldl consistent_init)

lemma lookup_agree:
  assumes c: "consistent h s"
  shows "LinkedList_search_by_id (book_store s) (books s) k = search_by_id h s k"
proof (cases "search_nodes (book_store s) (head (books s)) k")
  case None
  then have "k \<notin> (\<lambda>b. book_id (book_store s b)) ` set (head (books s))"
    by (simp add: search_nodes_None)
  have "search_by_id h s k = None"
  proof (cases "search_by_id h s k")
    case (Some b)
    with consistentD(4) [OF c, of k b] \<open>k \<notin> _\<close> show ?thesis by auto
  qed simp
  with None show ?thesis by (simp add: LinkedList_search_by_id_def)
next
  case (Some b)
  from search_nodes_Some [OF Some] consistentD(4) [OF c, of k b]
  have "search_by_id h s k = Some b" by simp
  with Some show ?thesis by (simp add: LinkedList_search_by_id_def)
qed

lemma registry_ids_retrievable:
  assumes c: "consistent h s"
  shows "set (registry_ids s) = {k. search_by_id h s k \<noteq> None}"
proof (intro set_eqI iffI)
  fix k assume "k \<in> set (registry_ids s)"
  then obtain b where "b \<in> set (head (books s))" "book_id (book_store s b) = k"
    by (auto simp: registry_ids_def LinkedList_get_all_books_def)
  with consistentD(4) [OF c, of k b] show "k \<in> {k. search_by_id h s k \<noteq> None}" by simp
next
  fix k assume "k \<in> {k. search_by_id h s k \<noteq> None}"
  then obtain b where "search_by_id h s k = Some b" by auto
  with consistentD(4) [OF c, of k b] show "k \<in> set (registry_ids s)"
    by (auto simp: registry_ids_def LinkedList_get_all_books_def)
qed

section \<open>The open-loan table, the history and the flags agree in every run\<close>

lemma loans_okD:
  assumes "loans_ok s"
  shows "distinct (borrow_history s)"
    and "\<And>r. r \<in> set (borrow_history s) \<Longrightarrow> r < record_next s"
    and "\<And>r. r \<in> set (borrow_history s) \<Longrightarrow> book (record_store s r) < book_next s"
    and "\<And>k r. borrowed_books s k = Some r \<Longrightarrow> r \<in> set (borrow_history s)"
    and "\<And>k r. borrowed_books s k = Some r \<Longrightarrow> return_date (record_store s r) = None"
    and "\<And>k r. borrowed_books s k = Some r \<Longrightarrow> book (record_store s r) \<in> set (head (books s))"
    and "\<And>k r. borrowed_books s k = Some r \<Longrightarrow> record_book_id s r = k"
    and "\<And>k r. borrowed_books s k = Some r \<Longrightarrow> is_borrowed (book_store s (book (record_store s r)))"
    and "\<And>r. r \<in> set (borrow_history s) \<Longrightarrow> return_date (record_store s r) = None \<Longrightarrow>
           borrowed_books s (record_book_id s r) = Some r"
    and "\<And>b. b \<in> set (head (books s)) \<Longrightarrow> is_borrowed (book_store s b) \<Longrightarrow>
           borrowed_books s (book_id (book_store s b)) \<noteq> None"
  using assms unfolding loans_ok_def by blast+

lemma loans_ok_init: "loans_ok CodeShelfLibrary_init"
  by (simp add: loans_ok_def CodeShelfLibrary_init_def LinkedList_init_def)

lemma loans_ok_add_book:
  assumes c: "consistent h s" and l: "loans_ok s"
  shows "loans_ok (snd (add_book h bid t a y s))"
proof (cases "LinkedList_search_by_id (book_store s) (books s) bid")
  case (Some b)
  with l show ?thesis by (simp add: add_book_def)
next
  case None
  define s' where "s' = snd (add_book h bid t a y s)"
  have hd': "head (books s') = head (books s) @ [book_next s]"
    and st': "\<And>b. b \<noteq> book_next s \<Longrightarrow> book_store s' b = book_store s b"
    and new: "\<not> is_borrowed (book_store s' (book_next s))"
    and next': "book_next s' = Suc (book_next s)"
    and rest: "borrow_history s' = borrow_history s" "record_store s' = record_store s"
      "record_next s' = record_next s" "borrowed_books s' = borrowed_books s"
    using None
    by (simp_all add: s'_def add_book_def Let_def LinkedList_add_book_def append_node_conv
        Book_init_def)
  have old: "\<And>b. b < book_next s \<Longrightarrow> book_store s' b = book_store s b"
    using st' by auto
  have rb: "\<And>r. r \<in> set (borrow_history s) \<Longrightarrow> record_book_id s' r = record_book_id s r"
    using loans_okD(3) [OF l] by (simp add: record_book_id_def rest old)
  have "distinct (borrow_history s')"
    using loans_okD(1) [OF l] by (simp add: rest)
  moreover have "\<forall>r\<in>set (borrow_history s'). r < record_next s' \<and> book (record_store s' r) < book_next s'"
    using loans_okD(2,3) [OF l] by (auto simp: rest next' less_Suc_eq)
  moreover have "\<forall>k r. borrowed_books s' k = Some r \<longrightarrow>
           r \<in> set (borrow_history s') \<and> return_date (record_store s' r) = None
           \<and> book (record_store s' r) \<in> set (head (books s'))
           \<and> record_book_id s' r = k \<and> is_borrowed (book_store s' (book (record_store s' r)))"
  proof (intro allI impI)
    fix k r assume "borrowed_books s' k = Some r"
    then have b: "borrowed_books s k = Some r" by (simp add: rest)
    from loans_okD(4-8) [OF l b] loans_okD(3) [OF l loans_okD(4) [OF l b]] rb [OF loans_okD(4) [OF l b]]
    show "r \<in> set (borrow_history s') \<and> return_date (record_store s' r) = None
           \<and> book (record_store s' r) \<in> set (head (books s'))
           \<and> record_book_id s' r = k \<and> is_borrowed (book_store s' (book (record_store s' r)))"
      by (simp add: rest hd' old)
  qed
  moreover have "\<forall>r\<in>set (borrow_history s'). return_date (record_store s' r) = None \<longrightarrow>
           borrowed_books s' (record_book_id s' r) = Some r"
    using loans_okD(9) [OF l] rb by (simp add: rest)
  moreover have "\<forall>b\<in>set (head (books s')). is_borrowed (book_store s' b) \<longrightarrow>
           borrowed_books s' (book_id (book_store s' b)) \<noteq> None"
    using loans_okD(10) [OF l] consistentD(3) [OF c] new old by (auto simp: hd' rest)
  ultimately show ?thesis unfolding loans_ok_def s'_def by blast
qed

lemma loans_ok_remove_book:
  assumes c: "consistent h s" and l: "loans_ok s"
  shows "loans_ok (snd (remove_book h bid s))"
proof (cases "LinkedList_search_by_id (book_store s) (books s) bid")
  case None
  with l show ?thesis by (simp add: remove_book_def)
next
  case (Some x)
  show ?thesis
  proof (cases "is_borrowed (book_store s x)")
    case True
    with Some l show ?thesis by (simp add: remove_book_def)
  next
    case False
    define s' where "s' = snd (remove_book h bid s)"
    from Some have sn: "search_nodes (book_store s) (head (books s)) bid = Some x"
      by (simp add: LinkedList_search_by_id_def)
    have hd': "head (books s') = remove1 x (head (books s))"
      and rest: "book_store s' = book_store s" "book_next s' = book_next s"
        "borrow_history s' = borrow_history s" "record_store s' = record_store s"
        "record_next s' = record_next s" "borrowed_books s' = borrowed_books s"
      using Some False remove_node_remove1 [OF sn]
      by (simp_all add: s'_def remove_book_def LinkedList_remove_book_def)
    have rb: "\<And>r. record_book_id s' r = record_book_id s r"
      by (simp add: record_book_id_def rest)
    have keep: "\<And>b. b \<in> set (head (books s)) \<Longrightarrow> is_borrowed (book_store s b) \<Longrightarrow>
                  b \<in> set (head (books s'))"
    proof -
      fix b assume "b \<in> set (head (books s))" and "is_borrowed (book_store s b)"
      with False have "b \<noteq> x" by auto
      with \<open>b \<in> set (head (books s))\<close> show "b \<in> set (head (books s'))"
        by (simp add: hd' in_set_remove1)
    qed
    have sub: "\<And>b. b \<in> set (head (books s')) \<Longrightarrow> b \<in> set (head (books s))"
      using set_remove1_subset [of x "head (books s)"] by (auto simp: hd')
    have "distinct (borrow_history s')"
      using loans_okD(1) [OF l] by (simp add: rest)
    moreover have "\<forall>r\<in>set (borrow_history s'). r < record_next s' \<and> book (record_store s' r) < book_next s'"
      using loans_okD(2,3) [OF l] by (auto simp: rest)
    moreover have "\<forall>k r. borrowed_books s' k = Some r \<longrightarrow>
             r \<in> set (borrow_history s') \<and> return_date (record_store s' r) = None
             \<and> book (record_store s' r) \<in> set (head (books s'))
             \<and> record_book_id s' r = k \<and> is_borrowed (book_store s' (book (record_store s' r)))"
      using loans_okD(4-8) [OF l] keep by (simp add: rest rb)
    moreover have "\<forall>r\<in>set (borrow_history s'). return_date (record_store s' r) = None \<longrightarrow>
             borrowed_books s' (record_book_id s' r) = Some r"
      using loans_okD(9) [OF l] by (simp add: rest rb)
    moreover have "\<forall>b\<in>set (head (books s')). is_borrowed (book_store s' b) \<longrightarrow>
             borrowed_books s' (book_id (book_store s' b)) \<noteq> None"
      using loans_okD(10) [OF l] sub by (simp add: rest)
    ultimately show ?thesis unfolding loans_ok_def s'_def by blast
  qed
qed

lemma loans_ok_borrow_book:
  assumes c: "consistent h s" and l: "loans_ok s"
  shows "loans_ok (snd (borrow_book h t1 t2 bid who s))"
proof (cases "search_by_id h s bid")
  case None
  with l show ?thesis by (simp add: borrow_book_def)
next
  case (Some b)
  show ?thesis
  proof (cases "is_borrowed (book_store s b)")
    case True
    with Some l show ?thesis by (simp add: borrow_book_def loans_ok_def record_book_id_def)
  next
    case False
    define s' where "s' = snd (borrow_book h t1 t2 bid who s)"
    define n where "n = record_next s"
    from consistentD(4) [OF c, of bid b] Some
    have b: "b \<in> set (head (books s))" "book_id (book_store s b) = bid" by simp_all
    have hd': "books s' = books s" "book_next s' = book_next s"
      and st': "\<And>x. x \<noteq> b \<Longrightarrow> book_store s' x = book_store s x"
      and id': "\<And>x. book_id (book_store s' x) = book_id (book_store s x)"
      and bor: "is_borrowed (book_store s' b)"
      and rs': "\<And>r. r \<noteq> n \<Longrightarrow> record_store s' r = record_store s r"
      and rn: "book (record_store s' n) = b" "return_date (record_store s' n) = None"
      and next': "record_next s' = Suc n"
      and hist': "borrow_history s' = borrow_history s @ [n]"
      and bb': "borrowed_books s' = (borrowed_books s)(bid \<mapsto> n)"
      using Some False
      by (simp_all add: s'_def n_def borrow_book_def Let_def Stack_push_def BorrowRecord_init_def)
    have nb: "borrowed_books s bid = None"
    proof (rule ccontr)
      assume "borrowed_books s bid \<noteq> None"
      then obtain r where r: "borrowed_books s bid = Some r" by auto
      from loans_okD(6-8) [OF l r] have "book (record_store s r) \<in> set (head (books s))"
        "book_id (book_store s (book (record_store s r))) = bid"
        "is_borrowed (book_store s (book (record_store s r)))"
        by (simp_all add: record_book_id_def)
      with same_id_same_book [OF c b(1) this(1)] b(2) False show False by simp
    qed
    have lt_n: "\<And>r. r \<in> set (borrow_history s) \<Longrightarrow> r < n"
      using loans_okD(2) [OF l] by (simp add: n_def)
    have old: "\<And>r. r \<in> set (borrow_history s) \<Longrightarrow> r \<noteq> n"
      using lt_n by auto
    have rb: "\<And>r. r \<in> set (borrow_history s) \<Longrightarrow> record_book_id s' r = record_book_id s r"
      using old by (simp add: record_book_id_def rs' id')
    have rbn: "record_book_id s' n = bid"
      by (simp add: record_book_id_def rn id' b)
    have "distinct (borrow_history s')"
      using loans_okD(1) [OF l] old by (auto simp: hist')
    moreover have "\<forall>r\<in>set (borrow_history s'). r < record_next s' \<and> book (record_store s' r) < book_next s'"
      using lt_n loans_okD(3) [OF l] old consistentD(3) [OF c b(1)]
      by (auto simp: hist' next' hd' rn rs' less_Suc_eq)
    moreover have "\<forall>k r. borrowed_books s' k = Some r \<longrightarrow>
             r \<in> set (borrow_history s') \<and> return_date (record_store s' r) = None
             \<and> book (record_store s' r) \<in> set (head (books s'))
             \<and> record_book_id s' r = k \<and> is_borrowed (book_store s' (book (record_store s' r)))"
    proof (intro allI impI)
      fix k r assume a: "borrowed_books s' k = Some r"
      show "r \<in> set (borrow_history s') \<and> return_date (record_store s' r) = None
             \<and> book (record_store s' r) \<in> set (head (books s'))
             \<and> record_book_id s' r = k \<and> is_borrowed (book_store s' (book (record_store s' r)))"
      proof (cases "k = bid")
        case True
        with a have "r = n" by (simp add: bb')
        with True show ?thesis by (simp add: hist' rn hd' b rbn bor)
      next
        case False
        with a have o: "borrowed_books s k = Some r" by (simp add: bb')
        note in_hist = loans_okD(4) [OF l o]
        from loans_okD(7) [OF l o] False b(2)
        have "book (record_store s r) \<noteq> b" by (auto simp: record_book_id_def)
        with loans_okD(5,6,7,8) [OF l o] in_hist old [OF in_hist] rb [OF in_hist]
        show ?thesis by (simp add: hist' rs' hd' st')
      qed
    qed
    moreover have "\<forall>r\<in>set (borrow_history s'). return_date (record_store s' r) = None \<longrightarrow>
             borrowed_books s' (record_book_id s' r) = Some r"
    proof (intro ballI impI)
      fix r assume r: "r \<in> set (borrow_history s')" and o: "return_date (record_store s' r) = None"
      show "borrowed_books s' (record_book_id s' r) = Some r"
      proof (cases "r = n")
        case True
        then show ?thesis by (simp add: rbn bb')
      next
        case False
        with r have in_hist: "r \<in> set (borrow_history s)" by (simp add: hist')
        from o False have "return_date (record_store s r) = None" by (simp add: rs')
        from loans_okD(9) [OF l in_hist this] nb
        show ?thesis by (auto simp: rb [OF in_hist] bb')
      qed
    qed
    moreover have "\<forall>x\<in>set (head (books s')). is_borrowed (book_store s' x) \<longrightarrow>
             borrowed_books s' (book_id (book_store s' x)) \<noteq> None"
    proof (intro ballI impI)
      fix x assume x: "x \<in> set (head (books s'))" and o: "is_borrowed (book_store s' x)"
      show "borrowed_books s' (book_id (book_store s' x)) \<noteq> None"
      proof (cases "x = b")
        case True
        then show ?thesis by (simp add: id' b bb')
      next
        case False
        with o have "is_borrowed (book_store s x)" by (simp add: st')
        with x loans_okD(10) [OF l, of x] show ?thesis by (simp add: hd' id' bb')
      qed
    qed
    ultimately show ?thesis unfolding loans_ok_def s'_def by blast
  qed
qed

lemma loans_ok_return_book:
  assumes c: "consistent h s" and l: "loans_ok s"
  shows "loans_ok (snd (return_book h now bid s))"
proof (cases "search_by_id h s bid")
  case None
  with l show ?thesis by (simp add: return_book_def)
next
  case (Some b)
  show ?thesis
  proof (cases "is_borrowed (book_store s b)")
    case False
    with Some l show ?thesis by (simp add: return_book_def)
  next
    case True
    define s' where "s' = snd (return_book h now bid s)"
    from consistentD(4) [OF c, of bid b] Some
    have b: "b \<in> set (head (books s))" "book_id (book_store s b) = bid" by simp_all
    from loans_okD(10) [OF l b(1) True] b(2)
    obtain r0 where r0: "borrowed_books s bid = Some r0" by auto
    have hd': "books s' = books s" "book_next s' = book_next s"
      and st': "\<And>x. x \<noteq> b \<Longrightarrow> book_store s' x = book_store s x"
      and id': "\<And>x. book_id (book_store s' x) = book_id (book_store s x)"
      and avail: "\<not> is_borrowed (book_store s' b)"
      and rs': "\<And>r. r \<noteq> r0 \<Longrightarrow> record_store s' r = record_store s r"
      and bk': "\<And>r. book (record_store s' r) = book (record_store s r)"
      and closed: "return_date (record_store s' r0) = Some now"
      and next': "record_next s' = record_next s"
      and hist': "borrow_history s' = borrow_history s"
      and bb': "borrowed_books s' = (borrowed_books s)(bid := None)"
      using Some True r0
      by (simp_all add: s'_def return_book_def Let_def case_prod_beta)
    have rb: "\<And>r. record_book_id s' r = record_book_id s r"
      by (simp add: record_book_id_def bk' id')
    have r0_id: "record_book_id s r0 = bid"
      by (rule loans_okD(7) [OF l r0])
    have "distinct (borrow_history s')"
      using loans_okD(1) [OF l] by (simp add: hist')
    moreover have "\<forall>r\<in>set (borrow_history s'). r < record_next s' \<and> book (record_store s' r) < book_next s'"
      using loans_okD(2,3) [OF l] by (simp add: hist' next' hd' bk')
    moreover have "\<forall>k r. borrowed_books s' k = Some r \<longrightarrow>
             r \<in> set (borrow_history s') \<and> return_date (record_store s' r) = None
             \<and> book (record_store s' r) \<in> set (head (books s'))
             \<and> record_book_id s' r = k \<and> is_borrowed (book_store s' (book (record_store s' r)))"
    proof (intro allI impI)
      fix k r assume a: "borrowed_books s' k = Some r"
      then have k: "k \<noteq> bid" and o: "borrowed_books s k = Some r"
        by (auto simp: bb' split: if_splits)
      from loans_okD(7) [OF l o] k r0_id have ne: "r \<noteq> r0" by auto
      from loans_okD(7) [OF l o] k b(2)
      have "book (record_store s r) \<noteq> b" by (auto simp: record_book_id_def)
      with loans_okD(4-8) [OF l o] ne
      show "r \<in> set (borrow_history s') \<and> return_date (record_store s' r) = None
             \<and> book (record_store s' r) \<in> set (head (books s'))
             \<and> record_book_id s' r = k \<and> is_borrowed (book_store s' (book (record_store s' r)))"
        by (simp add: hist' rs' hd' st' rb)
    qed
    moreover have "\<forall>r\<in>set (borrow_history s'). return_date (record_store s' r) = None \<longrightarrow>
             borrowed_books s' (record_book_id s' r) = Some r"
    proof (intro ballI impI)
      fix r assume r: "r \<in> set (borrow_history s')" and o: "return_date (record_store s' r) = None"
      from o closed have ne: "r \<noteq> r0" by auto
      with o have "return_date (record_store s r) = None" by (simp add: rs')
      from loans_okD(9) [OF l _ this] r have f: "borrowed_books s (record_book_id s r) = Some r"
        by (simp add: hist')
      with r0 ne have "record_book_id s r \<noteq> bid" by auto
      with f show "borrowed_books s' (record_book_id s' r) = Some r"
        by (simp add: rb bb')
    qed
    moreover have "\<forall>x\<in>set (head (books s')). is_borrowed (book_store s' x) \<longrightarrow>
             borrowed_books s' (book_id (book_store s' x)) \<noteq> None"
    proof (intro ballI impI)
      fix x assume x: "x \<in> set (head (books s'))" and o: "is_borrowed (book_store s' x)"
      from o avail have ne: "x \<noteq> b" by auto
      with o have ob: "is_borrowed (book_store s x)" by (simp add: st')
      from x have xin: "x \<in> set (head (books s))" by (simp add: hd')
      from same_id_same_book [OF c xin b(1)] ne b(2)
      have "book_id (book_store s x) \<noteq> bid" by auto
      with loans_okD(10) [OF l xin ob]
      show "borrowed_books s' (book_id (book_store s' x)) \<noteq> None"
        by (simp add: id' bb')
    qed
    ultimately show ?thesis unfolding loans_ok_def s'_def by blast
  qed
qed

lemma loans_ok_display_all_books:
  assumes "loans_ok s"
  shows "loans_ok (snd (display_all_books lower sort_by s))"
  using assms
  by (simp add: loans_ok_def record_book_id_def display_all_books_def Let_def
      head_sort_by_title head_sort_by_author)

lemma invariants_step:
  "consistent h s \<and> loans_ok s \<Longrightarrow> consistent h (step h lower s op) \<and> loans_ok (step h lower s op)"
  by (cases op)
    (simp_all add: consistent_add_book consistent_remove_book consistent_borrow_book
      consistent_return_book consistent_display_all_books
      loans_ok_add_book loans_ok_remove_book loans_ok_borrow_book
      loans_ok_return_book loans_ok_display_all_books)

lemma invariants_foldl:
  "consistent h s \<and> loans_ok s \<Longrightarrow>
   consistent h (foldl (step h lower) s ops) \<and> loans_ok (foldl (step h lower) s ops)"
proof (induction ops arbitrary: s)
  case Nil then show ?case by simp
next
  case (Cons op ops)
  from Cons.IH [OF invariants_step [OF Cons.prems]] show ?case by simp
qed

lemma loans_ok_run: "loans_ok (run h lower ops)"
  using invariants_foldl [where h = h and lower = lower and s = CodeShelfLibrary_init and ops = ops]
  by (simp add: run_def consistent_init loans_ok_init)

lemma filter_unique:
  "distinct xs \<Longrightarrow> r \<in> set xs \<Longrightarrow> (\<And>x. x \<in> set xs \<Longrightarrow> P x \<longleftrightarrow> x = r) \<Longrightarrow> filter P xs = [r]"
proof (induction xs)
  case Nil then show ?case by simp
next
  case (Cons x xs)
  show ?case
  proof (cases "x = r")
    case True
    with Cons.prems have "\<And>y. y \<in> set xs \<Longrightarrow> \<not> P y" by auto
    then have "filter P xs = []" by (simp add: filter_empty_conv)
    with True Cons.prems(3) [of x] show ?thesis by simp
  next
    case False
    with Cons show ?thesis by auto
  qed
qed

lemma open_events_invariant:
  assumes c: "consistent h s" and l: "loans_ok s" and b: "b \<in> set (head (books s))"
  shows "open_events s (book_id (book_store s b))
           = (if is_borrowed (book_store s b)
              then [the (borrowed_books s (book_id (book_store s b)))] else [])"
proof (cases "is_borrowed (book_store s b)")
  case True
  from loans_okD(10) [OF l b True]
  obtain r where r: "borrowed_books s (book_id (book_store s b)) = Some r" by auto
  have "filter (\<lambda>x. return_date (record_store s x) = None
                     \<and> record_book_id s x = book_id (book_store s b)) (borrow_history s) = [r]"
  proof (rule filter_unique [OF loans_okD(1) [OF l] loans_okD(4) [OF l r]])
    fix x assume x: "x \<in> set (borrow_history s)"
    show "(return_date (record_store s x) = None
             \<and> record_book_id s x = book_id (book_store s b)) \<longleftrightarrow> x = r"
      using loans_okD(9) [OF l x] loans_okD(5,7) [OF l r] r by auto
  qed
  with True r show ?thesis by (simp add: open_events_def Stack_get_all_items_def)
next
  case False
  have "\<And>x. x \<in> set (borrow_history s) \<Longrightarrow>
          \<not> (return_date (record_store s x) = None
              \<and> record_book_id s x = book_id (book_store s b))"
  proof
    fix x assume x: "x \<in> set (borrow_history s)"
      and o: "return_date (record_store s x) = None
              \<and> record_book_id s x = book_id (book_store s b)"
    from loans_okD(9) [OF l x] o
    have bb: "borrowed_books s (book_id (book_store s b)) = Some x" by auto
    from loans_okD(6,7,8) [OF l bb]
    have "book (record_store s x) \<in> set (head (books s))"
      "book_id (book_store s (book (record_store s x))) = book_id (book_store s b)"
      "is_borrowed (book_store s (book (record_store s x)))"
      by (simp_all add: record_book_id_def)
    with same_id_same_book [OF c this(1) b] False show False by simp
  qed
  then have "filter (\<lambda>x. return_date (record_store s x) = None
                     \<and> record_book_id s x = book_id (book_store s b)) (borrow_history s) = []"
    by (simp add: filter_empty_conv)
  with False show ?thesis by (simp add: open_events_def Stack_get_all_items_def)
qed

lemma display_borrow_success:
  assumes l: "loans_ok s" and f: "search_by_id h s bid = Some b"
    and a: "\<not> is_borrowed (book_store s b)"
  shows "display_borrow_history (snd (borrow_book h t1 t2 bid who s))
           = (title (book_store s b), who, t2, None) # display_borrow_history s"
proof -
  have old: "\<And>r. r \<in> set (borrow_history s) \<Longrightarrow> r \<noteq> record_next s"
    using loans_okD(2) [OF l] by auto
  show ?thesis
    using f a old
    by (simp add: borrow_book_def Let_def display_borrow_history_def history_row_def
        Stack_push_def Stack_get_all_items_def BorrowRecord_init_def)
qed

lemma display_borrow_borrow_return:
  assumes c: "consistent h s" and l: "loans_ok s"
    and fa: "search_by_id h s ida = Some a" and fb: "search_by_id h s idb = Some b"
    and ne: "ida \<noteq> idb"
    and aa: "\<not> is_borrowed (book_store s a)" and ab: "\<not> is_borrowed (book_store s b)"
  shows "display_borrow_history
           (snd (return_book h t5 ida
              (snd (borrow_book h t3 t4 idb ub (snd (borrow_book h t1 t2 ida ua s))))))
         = (title (book_store s b), ub, t4, None)
           # (title (book_store s a), ua, t2, Some t5) # display_borrow_history s"
proof -
  have old: "\<And>r. r \<in> set (borrow_history s) \<Longrightarrow> r \<noteq> record_next s"
    "\<And>r. r \<in> set (borrow_history s) \<Longrightarrow> r \<noteq> Suc (record_next s)"
    "record_next s \<notin> set (borrow_history s)" "Suc (record_next s) \<notin> set (borrow_history s)"
    using loans_okD(2) [OF l] by (fastforce dest: less_imp_neq Suc_lessD)+
  from consistentD(4) [OF c, of ida a] consistentD(4) [OF c, of idb b] fa fb ne
  have ab_ne: "a \<noteq> b" by auto
  show ?thesis
    using fa fb ne aa ab old ab_ne
    by (simp add: borrow_book_def return_book_def search_by_id_def Let_def case_prod_beta
        display_borrow_history_def history_row_def
        Stack_push_def Stack_get_all_items_def BorrowRecord_init_def)
qed

lemma display_add_book:
  assumes l: "loans_ok s"
  shows "display_borrow_history (snd (add_book h bid t a y s)) = display_borrow_history s"
proof (cases "LinkedList_search_by_id (book_store s) (books s) bid")
  case (Some b)
  then show ?thesis by (simp add: add_book_def)
next
  case None
  have "\<And>r. r \<in> set (borrow_history s) \<Longrightarrow>
          history_row (snd (add_book h bid t a y s)) r = history_row s r"
  proof -
    fix r assume "r \<in> set (borrow_history s)"
    from loans_okD(3) [OF l this] have "book (record_store s r) \<noteq> book_next s" by simp
    with None show "history_row (snd (add_book h bid t a y s)) r = history_row s r"
      by (simp add: add_book_def Let_def history_row_def)
  qed
  moreover have "borrow_history (snd (add_book h bid t a y s)) = borrow_history s"
    using None by (simp add: add_book_def Let_def)
  ultimately show ?thesis
    by (simp add: display_borrow_history_def Stack_get_all_items_def)
qed

lemma display_remove_book:
  "display_borrow_history (snd (remove_book h bid s)) = display_borrow_history s"
  by (simp add: remove_book_def display_borrow_history_def history_row_def
      split: option.splits)

lemma display_display_all_books:
  "display_borrow_history (snd (display_all_books lower sort_by s)) = display_borrow_history s"
  by (simp add: display_all_books_def Let_def display_borrow_history_def history_row_def)

lemma borrow_book_succeeds_iff:
  "fst (borrow_book h t1 t2 bid who s) \<longleftrightarrow>
     (\<exists>x. search_by_id h s bid = Some x \<and> \<not> is_borrowed (book_store s x))"
  by (simp add: borrow_book_def Let_def split: option.splits)

lemma display_borrow_fail:
  "\<not> fst (borrow_book h t1 t2 bid who s) \<Longrightarrow>
   display_borrow_history (snd (borrow_book h t1 t2 bid who s)) = display_borrow_history s"
  by (simp add: borrow_book_def Let_def display_borrow_history_def history_row_def
      split: option.splits if_splits)

lemma history_borrow_success:
  "search_by_id h s bid = Some x \<Longrightarrow> \<not> is_borrowed (book_store s x) \<Longrightarrow>
   Stack_get_all_items (borrow_history (snd (borrow_book h t1 t2 bid who s)))
     = Stack_get_all_items (borrow_history s) @ [record_next s]"
  by (simp add: borrow_book_def Let_def Stack_get_all_items_def Stack_push_def)

lemma return_book_succeeds_iff:
  "fst (fst (return_book h now bid s)) \<longleftrightarrow>
     (\<exists>x. search_by_id h s bid = Some x \<and> is_borrowed (book_store s x))"
  by (simp add: return_book_def Let_def case_prod_beta split: option.splits)

lemma history_return_book:
  "Stack_get_all_items (borrow_history (snd (return_book h now bid s)))
     = Stack_get_all_items (borrow_history s)"
  by (simp add: return_book_def Let_def case_prod_beta split: option.splits)

lemma display_return_success:
  assumes c: "consistent h s" and l: "loans_ok s"
    and f: "search_by_id h s bid = Some b" and o: "is_borrowed (book_store s b)"
  shows "length (open_events s bid) = 1
       \<and> display_borrow_history (snd (return_book h now bid s))
           = map (\<lambda>r. if r \<in> set (open_events s bid)
                       then (title (book_store s (book (record_store s r))),
                             borrower (record_store s r), br_borrow_date (record_store s r),
                             Some now)
                       else history_row s r)
               (rev (Stack_get_all_items (borrow_history s)))"
proof -
  from consistentD(4) [OF c, of bid b] f
  have b: "b \<in> set (head (books s))" "book_id (book_store s b) = bid" by simp_all
  from loans_okD(10) [OF l b(1) o] b(2)
  obtain r0 where r0: "borrowed_books s bid = Some r0" by auto
  from open_events_invariant [OF c l b(1)] o b(2) r0
  have oe: "open_events s bid = [r0]" by simp
  have "\<And>r. history_row (snd (return_book h now bid s)) r
          = (if r = r0
             then (title (book_store s (book (record_store s r))),
                   borrower (record_store s r), br_borrow_date (record_store s r), Some now)
             else history_row s r)"
    using f o r0 by (simp add: return_book_def Let_def case_prod_beta history_row_def)
  moreover have "borrow_history (snd (return_book h now bid s)) = borrow_history s"
    using f o r0 by (simp add: return_book_def Let_def case_prod_beta)
  ultimately show ?thesis
    by (simp add: oe display_borrow_history_def Stack_get_all_items_def)
qed

section \<open>Waitlist resolution on return\<close>

text \<open>
  Claim C2. The waitlist scan of \<open>return_book\<close> takes out the front-most entry whose
  \<open>book_id\<close> is the returned id and keeps every other entry in its place: a waitlist
  \<open>pre @ e # post\<close> whose first entry for the id is \<open>e\<close> becomes \<open>pre @ post\<close>, and a
  waitlist with no entry for the id stays as it is. A \<open>return_book\<close> that succeeds leaves
  the waitlist so scanned, hence at most one entry shorter; one that fails leaves the whole
  state alone.
\<close>

theorem waitlist_resolution:
  "((\<forall>x\<in>set wl. wl_book_id x \<noteq> bid) \<longrightarrow> check_waitlist bid wl = (wl, None))
   \<and> ((\<forall>x\<in>set pre. wl_book_id x \<noteq> bid) \<and> wl_book_id e = bid \<longrightarrow>
        check_waitlist bid (pre @ e # post) = (pre @ post, Some e))
   \<and> (fst (fst (return_book h now bid s)) \<longrightarrow>
        waitlist (snd (return_book h now bid s)) = fst (check_waitlist bid (waitlist s)))
   \<and> (\<not> fst (fst (return_book h now bid s)) \<longrightarrow> snd (return_book h now bid s) = s)
   \<and> length (waitlist s) \<le> Suc (length (waitlist (snd (return_book h now bid s))))"
  using check_waitlist_no_match check_waitlist_match return_book_True_waitlist
    return_book_False_state return_book_waitlist_length
  by blast

theorem waitlist_resolution_witness:
  "waitlist (run hash0 ascii_lower demo_waitlist_ops) =
     [] @ WaitlistEntry_init ''A'' ''u1'' 3
        # [WaitlistEntry_init ''B'' ''u2'' 4, WaitlistEntry_init ''A'' ''u3'' 5]
   \<and> fst (fst (return_book hash0 9 ''A'' (run hash0 ascii_lower demo_waitlist_ops)))
   \<and> waitlist (snd (return_book hash0 9 ''A'' (run hash0 ascii_lower demo_waitlist_ops))) =
       [WaitlistEntry_init ''B'' ''u2'' 4, WaitlistEntry_init ''A'' ''u3'' 5]
   \<and> check_waitlist ''C'' [WaitlistEntry_init ''B'' ''u2'' 4, WaitlistEntry_init ''A'' ''u3'' 5] =
       ([WaitlistEntry_init ''B'' ''u2'' 4, WaitlistEntry_init ''A'' ''u3'' 5], None)
   \<and> \<not> fst (fst (return_book hash0 9 ''C'' (run hash0 ascii_lower demo_waitlist_ops)))
   \<and> snd (return_book hash0 9 ''C'' (run hash0 ascii_lower demo_waitlist_ops)) = run hash0 ascii_lower demo_waitlist_ops"
proof -
  have w: "waitlist (run hash0 ascii_lower demo_waitlist_ops) =
     [] @ WaitlistEntry_init ''A'' ''u1'' 3
        # [WaitlistEntry_init ''B'' ''u2'' 4, WaitlistEntry_init ''A'' ''u3'' 5]"
    by (simp add: demo_waitlist_ops_def engine_defs)
  have t: "fst (fst (return_book hash0 9 ''A'' (run hash0 ascii_lower demo_waitlist_ops)))"
    by (simp add: demo_waitlist_ops_def engine_defs)
  have f: "\<not> fst (fst (return_book hash0 9 ''C'' (run hash0 ascii_lower demo_waitlist_ops)))"
    by (simp add: demo_waitlist_ops_def engine_defs)
  have m: "wl_book_id (WaitlistEntry_init ''A'' ''u1'' 3) = ''A''"
    by (simp add: WaitlistEntry_init_def)
  have n: "\<forall>x\<in>set [WaitlistEntry_init ''B'' ''u2'' 4, WaitlistEntry_init ''A'' ''u3'' 5].
             wl_book_id x \<noteq> ''C''"
    by (simp add: WaitlistEntry_init_def)
  note a = waitlist_resolution
    [of "[WaitlistEntry_init ''B'' ''u2'' 4, WaitlistEntry_init ''A'' ''u3'' 5]" "''C''"
        "[]" "WaitlistEntry_init ''A'' ''u1'' 3" _ hash0 9 "run hash0 ascii_lower demo_waitlist_ops"]
  note b = waitlist_resolution
    [of "[]" "''A''" "[]" "WaitlistEntry_init ''A'' ''u1'' 3"
        "[WaitlistEntry_init ''B'' ''u2'' 4, WaitlistEntry_init ''A'' ''u3'' 5]"
        hash0 9 "run hash0 ascii_lower demo_waitlist_ops"]
  show ?thesis using a b w t f m n by simp
qed

section \<open>Borrowing\<close>

text \<open>
  Claim C3, as amended. \<open>borrow_book\<close> answers \<open>False\<close> both when no book has the id and
  when the book is already borrowed, so its return value does not tell the two apart. They
  differ in the state that is left: without a book the state is untouched (and a later
  \<open>search_by_id\<close> still finds nothing), whereas with a borrowed book the waitlist is one
  entry longer and a later \<open>search_by_id\<close> finds the book, borrowed; this is how \<open>main\<close>
  chooses its message.
\<close>

theorem borrow_outcomes:
  "(search_by_id h s bid = None \<longrightarrow> borrow_book h t1 t2 bid who s = (False, s))
   \<and> (search_by_id h s bid = Some b \<and> is_borrowed (book_store s b) \<longrightarrow>
        fst (borrow_book h t1 t2 bid who s) = False
        \<and> length (waitlist (snd (borrow_book h t1 t2 bid who s))) = length (waitlist s) + 1
        \<and> search_by_id h (snd (borrow_book h t1 t2 bid who s)) bid = Some b
        \<and> is_borrowed (book_store (snd (borrow_book h t1 t2 bid who s)) b))"
  by (simp add: borrow_book_def Queue_enqueue_def search_by_id_def)

theorem borrow_outcomes_witness:
  "search_by_id hash0 (run hash0 ascii_lower demo_ops) ''X'' = None
   \<and> borrow_book hash0 10 11 ''X'' ''u3'' (run hash0 ascii_lower demo_ops) = (False, run hash0 ascii_lower demo_ops)
   \<and> search_by_id hash0 (run hash0 ascii_lower demo_ops) ''B'' = Some 1
   \<and> is_borrowed (book_store (run hash0 ascii_lower demo_ops) 1)
   \<and> fst (borrow_book hash0 10 11 ''B'' ''u3'' (run hash0 ascii_lower demo_ops)) = False
   \<and> length (waitlist (snd (borrow_book hash0 10 11 ''B'' ''u3'' (run hash0 ascii_lower demo_ops)))) = 1"
proof -
  have x: "search_by_id hash0 (run hash0 ascii_lower demo_ops) ''X'' = None"
    by (simp add: demo_ops_def engine_defs append_node_conv)
  have g: "search_by_id hash0 (run hash0 ascii_lower demo_ops) ''B'' = Some 1"
    by (simp add: demo_ops_def engine_defs append_node_conv)
  have b: "is_borrowed (book_store (run hash0 ascii_lower demo_ops) 1)"
    by (simp add: demo_ops_def engine_defs append_node_conv)
  have w: "waitlist (run hash0 ascii_lower demo_ops) = []"
    by (simp add: demo_ops_def engine_defs append_node_conv)
  from borrow_outcomes [of hash0 "run hash0 ascii_lower demo_ops" "''X''" 10 11 "''u3''" 1]
    borrow_outcomes [of hash0 "run hash0 ascii_lower demo_ops" "''B''" 10 11 "''u3''" 1] x g b w
  show ?thesis by simp
qed

text \<open>
  Claim C3 as the specification states it fails: after \<open>demo_ops\<close> no book has the id
  \<open>X\<close> and the book \<open>B\<close> is borrowed, and \<open>borrow_book\<close> returns the same value for both.
\<close>

theorem borrow_outcomes_counterexample:
  "search_by_id hash0 (run hash0 ascii_lower demo_ops) ''X'' = None
   \<and> search_by_id hash0 (run hash0 ascii_lower demo_ops) ''B'' = Some 1
   \<and> is_borrowed (book_store (run hash0 ascii_lower demo_ops) 1)
   \<and> fst (borrow_book hash0 10 11 ''X'' ''u3'' (run hash0 ascii_lower demo_ops))
       = fst (borrow_book hash0 10 11 ''B'' ''u3'' (run hash0 ascii_lower demo_ops))"
  by (simp add: demo_ops_def engine_defs append_node_conv)

text \<open>
  Claim C7. When \<open>search_by_id\<close> finds a book for the id and the book is borrowed,
  \<open>borrow_book\<close> returns \<open>False\<close> and changes nothing but the waitlist, which gets exactly
  one entry at its back: the entry's \<open>book_id\<close> is the id asked for, its \<open>user_name\<close> is
  the borrower of the call and its \<open>request_date\<close> is the clock reading. The entries that
  were waiting stay in front of it as they were, so the waitlist is one longer; the book
  keeps its state (still borrowed, same borrower, same borrow date), and nothing is
  pushed to the borrow history: the history, its records and the open-loan table are as
  before.
\<close>

theorem borrow_borrowed_waitlists:
  assumes "search_by_id h s bid = Some b" and "is_borrowed (book_store s b)"
  shows "borrow_book h t1 t2 bid who s
           = (False,
              s\<lparr>waitlist :=
                  waitlist s @ [\<lparr>wl_book_id = bid, user_name = who, request_date = t1\<rparr>]\<rparr>)
         \<and> butlast (waitlist (snd (borrow_book h t1 t2 bid who s))) = waitlist s
         \<and> wl_book_id (last (waitlist (snd (borrow_book h t1 t2 bid who s)))) = bid
         \<and> user_name (last (waitlist (snd (borrow_book h t1 t2 bid who s)))) = who
         \<and> request_date (last (waitlist (snd (borrow_book h t1 t2 bid who s)))) = t1
         \<and> length (waitlist (snd (borrow_book h t1 t2 bid who s))) = length (waitlist s) + 1
         \<and> book_store (snd (borrow_book h t1 t2 bid who s)) = book_store s
         \<and> is_borrowed (book_store (snd (borrow_book h t1 t2 bid who s)) b)
         \<and> borrowed_by (book_store (snd (borrow_book h t1 t2 bid who s)) b)
             = borrowed_by (book_store s b)
         \<and> borrow_date (book_store (snd (borrow_book h t1 t2 bid who s)) b)
             = borrow_date (book_store s b)
         \<and> borrow_history (snd (borrow_book h t1 t2 bid who s)) = borrow_history s
         \<and> record_store (snd (borrow_book h t1 t2 bid who s)) = record_store s
         \<and> borrowed_books (snd (borrow_book h t1 t2 bid who s)) = borrowed_books s
         \<and> books (snd (borrow_book h t1 t2 bid who s)) = books s
         \<and> book_hash_table (snd (borrow_book h t1 t2 bid who s)) = book_hash_table s"
  using assms by (simp add: borrow_book_def Queue_enqueue_def WaitlistEntry_init_def)

theorem borrow_borrowed_waitlists_witness:
  "search_by_id hash0 (run hash0 ascii_lower demo_ops) ''B'' = Some 1
   \<and> is_borrowed (book_store (run hash0 ascii_lower demo_ops) 1)
   \<and> waitlist (run hash0 ascii_lower demo_ops) = []
   \<and> waitlist (snd (borrow_book hash0 10 11 ''B'' ''u3'' (run hash0 ascii_lower demo_ops)))
       = [\<lparr>wl_book_id = ''B'', user_name = ''u3'', request_date = 10\<rparr>]
   \<and> borrowed_by (book_store
        (snd (borrow_book hash0 10 11 ''B'' ''u3'' (run hash0 ascii_lower demo_ops))) 1)
       = Some ''u2''
   \<and> borrow_history (snd (borrow_book hash0 10 11 ''B'' ''u3'' (run hash0 ascii_lower demo_ops)))
       = [0, 1]"
proof -
  have g: "search_by_id hash0 (run hash0 ascii_lower demo_ops) ''B'' = Some 1"
    by (simp add: demo_ops_def engine_defs append_node_conv)
  have b: "is_borrowed (book_store (run hash0 ascii_lower demo_ops) 1)"
    by (simp add: demo_ops_def engine_defs append_node_conv)
  have w: "waitlist (run hash0 ascii_lower demo_ops) = []"
    by (simp add: demo_ops_def engine_defs append_node_conv)
  have hist: "borrow_history (run hash0 ascii_lower demo_ops) = [0, 1]"
    by (simp add: demo_ops_def engine_defs append_node_conv)
  have who: "borrowed_by (book_store (run hash0 ascii_lower demo_ops) 1) = Some ''u2''"
    by (simp add: demo_ops_def engine_defs append_node_conv)
  from borrow_borrowed_waitlists [OF g b, of 10 11 "''u3''"] g b w hist who
  show ?thesis by simp
qed

section \<open>Adding and removing\<close>

text \<open>
  Claim C5. When the registry already holds a book with the id, \<open>add_book\<close> returns
  \<open>False\<close> and the whole state (registry, hash table, history, waitlist, open-loan
  table and the objects) is the state before the call.
\<close>

theorem duplicate_add_rejected:
  "LinkedList_search_by_id (book_store s) (books s) bid = Some b \<Longrightarrow>
   add_book h bid t a y s = (False, s)"
  by (simp add: add_book_def)

theorem duplicate_add_rejected_witness:
  "LinkedList_search_by_id (book_store (run hash0 ascii_lower demo_ops)) (books (run hash0 ascii_lower demo_ops)) ''B''
     = Some 1
   \<and> add_book hash0 ''B'' ''Other'' ''Ann'' 1999 (run hash0 ascii_lower demo_ops)
       = (False, run hash0 ascii_lower demo_ops)"
proof -
  have f: "LinkedList_search_by_id (book_store (run hash0 ascii_lower demo_ops)) (books (run hash0 ascii_lower demo_ops))
             ''B'' = Some 1"
    by (simp add: demo_ops_def engine_defs append_node_conv)
  from f duplicate_add_rejected [OF f] show ?thesis by blast
qed

text \<open>
  Claim C6. \<open>remove_book\<close> returns \<open>False\<close> and leaves the whole state as it was when the
  registry has no book with the id, and also when the book it finds is borrowed; in the
  second case the book is therefore still in the registry and in the hash table, and still
  borrowed.
\<close>

theorem remove_failure_atomic:
  "(LinkedList_search_by_id (book_store s) (books s) bid = None \<longrightarrow>
      remove_book h bid s = (False, s))
   \<and> (LinkedList_search_by_id (book_store s) (books s) bid = Some b
        \<and> is_borrowed (book_store s b) \<longrightarrow>
        remove_book h bid s = (False, s)
        \<and> LinkedList_search_by_id (book_store (snd (remove_book h bid s)))
            (books (snd (remove_book h bid s))) bid = Some b
        \<and> search_by_id h (snd (remove_book h bid s)) bid = search_by_id h s bid
        \<and> is_borrowed (book_store (snd (remove_book h bid s)) b))"
  by (simp add: remove_book_def)

theorem remove_failure_atomic_witness:
  "LinkedList_search_by_id (book_store (run hash0 ascii_lower demo_ops)) (books (run hash0 ascii_lower demo_ops)) ''X''
     = None
   \<and> remove_book hash0 ''X'' (run hash0 ascii_lower demo_ops) = (False, run hash0 ascii_lower demo_ops)
   \<and> LinkedList_search_by_id (book_store (run hash0 ascii_lower demo_ops)) (books (run hash0 ascii_lower demo_ops)) ''B''
       = Some 1
   \<and> is_borrowed (book_store (run hash0 ascii_lower demo_ops) 1)
   \<and> remove_book hash0 ''B'' (run hash0 ascii_lower demo_ops) = (False, run hash0 ascii_lower demo_ops)
   \<and> search_by_id hash0 (run hash0 ascii_lower demo_ops) ''B'' = Some 1"
proof -
  have x: "LinkedList_search_by_id (book_store (run hash0 ascii_lower demo_ops)) (books (run hash0 ascii_lower demo_ops))
             ''X'' = None"
    by (simp add: demo_ops_def engine_defs append_node_conv)
  have f: "LinkedList_search_by_id (book_store (run hash0 ascii_lower demo_ops)) (books (run hash0 ascii_lower demo_ops))
             ''B'' = Some 1"
    by (simp add: demo_ops_def engine_defs append_node_conv)
  have b: "is_borrowed (book_store (run hash0 ascii_lower demo_ops) 1)"
    by (simp add: demo_ops_def engine_defs append_node_conv)
  have g: "search_by_id hash0 (run hash0 ascii_lower demo_ops) ''B'' = Some 1"
    by (simp add: demo_ops_def engine_defs append_node_conv)
  from x f b g remove_failure_atomic [of "run hash0 ascii_lower demo_ops" "''X''" hash0 1]
    remove_failure_atomic [of "run hash0 ascii_lower demo_ops" "''B''" hash0 1]
  show ?thesis by simp
qed

section \<open>Sorting\<close>

text \<open>
  Claim C8. Whatever function \<open>str.lower\<close> is: after \<open>sort_by_title\<close> the registry is in
  non-decreasing order of the lower-cased titles, and for every key the books with that
  lower-cased title are the same books in the same order as before (so the sort permutes
  the registry and is stable); likewise \<open>sort_by_author\<close> with the authors.
  \<open>display_all_books\<close> applies the one or the other according to the lower-cased
  \<open>sort_by\<close>, and changes no book.
\<close>

theorem sort_stable_case_insensitive:
  "sorted (map (\<lambda>x. lower (title (st x))) (head (LinkedList_sort_by_title lower st ll)))
   \<and> (\<forall>k. filter (\<lambda>x. lower (title (st x)) = k) (head (LinkedList_sort_by_title lower st ll))
          = filter (\<lambda>x. lower (title (st x)) = k) (head ll))
   \<and> sorted (map (\<lambda>x. lower (author (st x))) (head (LinkedList_sort_by_author lower st ll)))
   \<and> (\<forall>k. filter (\<lambda>x. lower (author (st x)) = k) (head (LinkedList_sort_by_author lower st ll))
          = filter (\<lambda>x. lower (author (st x)) = k) (head ll))
   \<and> (lower sort_by = ''title'' \<longrightarrow>
        books (snd (display_all_books lower sort_by s))
          = LinkedList_sort_by_title lower (book_store s) (books s)
        \<and> book_store (snd (display_all_books lower sort_by s)) = book_store s)
   \<and> (lower sort_by = ''author'' \<longrightarrow>
        books (snd (display_all_books lower sort_by s))
          = LinkedList_sort_by_author lower (book_store s) (books s)
        \<and> book_store (snd (display_all_books lower sort_by s)) = book_store s)"
  unfolding head_sort_by_title head_sort_by_author title_key_eq author_key_eq
  by (simp add: sort_key_stable display_all_books_def)

theorem sort_stable_case_insensitive_witness:
  "ascii_lower ''Title'' = ''title''
   \<and> head (books (run hash0 ascii_lower demo_sort_ops)) = [0, 1, 2]
   \<and> map (\<lambda>x. title (book_store (run hash0 ascii_lower demo_sort_ops) x)) [0, 1, 2]
       = [''beta'', ''Alpha'', ''BETA'']
   \<and> head (books (snd (display_all_books ascii_lower ''Title''
         (run hash0 ascii_lower demo_sort_ops)))) = [1, 0, 2]
   \<and> ascii_lower ''AUTHOR'' = ''author''
   \<and> map (\<lambda>x. author (book_store (run hash0 ascii_lower demo_sort_ops) x)) [0, 1, 2]
       = [''Zed'', ''bob'', ''Bob'']
   \<and> head (books (snd (display_all_books ascii_lower ''AUTHOR''
         (run hash0 ascii_lower demo_sort_ops)))) = [1, 2, 0]"
proof -
  have hd: "head (books (run hash0 ascii_lower demo_sort_ops)) = [0, 1, 2]"
    by (simp add: demo_sort_ops_def engine_defs append_node_conv)
  have ts: "map (\<lambda>x. title (book_store (run hash0 ascii_lower demo_sort_ops) x)) [0, 1, 2]
              = [''beta'', ''Alpha'', ''BETA'']"
    by (simp add: demo_sort_ops_def engine_defs append_node_conv)
  have as: "map (\<lambda>x. author (book_store (run hash0 ascii_lower demo_sort_ops) x)) [0, 1, 2]
              = [''Zed'', ''bob'', ''Bob'']"
    by (simp add: demo_sort_ops_def engine_defs append_node_conv)
  have t: "head (LinkedList_sort_by_title ascii_lower
                   (book_store (run hash0 ascii_lower demo_sort_ops))
                   (books (run hash0 ascii_lower demo_sort_ops))) = [1, 0, 2]"
    using ts by (simp add: head_sort_by_title hd title_key_def lower_demo order_demo)
  have a: "head (LinkedList_sort_by_author ascii_lower
                   (book_store (run hash0 ascii_lower demo_sort_ops))
                   (books (run hash0 ascii_lower demo_sort_ops))) = [1, 2, 0]"
    using as by (simp add: head_sort_by_author hd author_key_def lower_demo order_demo)
  from sort_stable_case_insensitive
         [where lower = ascii_lower and sort_by = "''Title''"
            and s = "run hash0 ascii_lower demo_sort_ops"
            and st = "book_store (run hash0 ascii_lower demo_sort_ops)"
            and ll = "books (run hash0 ascii_lower demo_sort_ops)"]
       sort_stable_case_insensitive
         [where lower = ascii_lower and sort_by = "''AUTHOR''"
            and s = "run hash0 ascii_lower demo_sort_ops"
            and st = "book_store (run hash0 ascii_lower demo_sort_ops)"
            and ll = "books (run hash0 ascii_lower demo_sort_ops)"]
       t a lower_demo hd ts as
  show ?thesis by simp
qed

section \<open>The invariants of the engine\<close>

text \<open>
  Claim C1. After every sequence of \<open>add_book\<close>, \<open>remove_book\<close>, \<open>borrow_book\<close>,
  \<open>return_book\<close> and \<open>display_all_books\<close> calls on the empty library, the ids of the
  registry are exactly the ids that the hash table finds, for each of them the scan of the
  linked list and the hash table give the same \<open>Book\<close> object, and no id occurs twice
  in the registry.
\<close>

theorem dual_structure_consistency:
  "set (registry_ids (run h lower ops)) = {k. search_by_id h (run h lower ops) k \<noteq> None}
   \<and> (\<forall>k\<in>set (registry_ids (run h lower ops)).
         search_by_id h (run h lower ops) k \<noteq> None
         \<and> LinkedList_search_by_id (book_store (run h lower ops)) (books (run h lower ops)) k
             = search_by_id h (run h lower ops) k)
   \<and> distinct (registry_ids (run h lower ops))"
proof -
  note c = consistent_run [of h lower ops]
  from c have "distinct (registry_ids (run h lower ops))" by (simp add: consistent_def)
  with registry_ids_retrievable [OF c] lookup_agree [OF c] show ?thesis by auto
qed

theorem dual_structure_consistency_witness:
  "registry_ids (run hash0 ascii_lower demo_mixed_ops) = [''B'', ''CC'', ''A'']
   \<and> distinct (registry_ids (run hash0 ascii_lower demo_mixed_ops))
   \<and> search_by_id hash0 (run hash0 ascii_lower demo_mixed_ops) ''A'' = Some 3
   \<and> LinkedList_search_by_id (book_store (run hash0 ascii_lower demo_mixed_ops))
        (books (run hash0 ascii_lower demo_mixed_ops)) ''A'' = Some 3"
proof -
  have ids: "registry_ids (run hash0 ascii_lower demo_mixed_ops) = [''B'', ''CC'', ''A'']"
    by (simp add: demo_mixed_ops_def registry_ids_def engine_defs append_node_conv)
  have g: "search_by_id hash0 (run hash0 ascii_lower demo_mixed_ops) ''A'' = Some 3"
    by (simp add: demo_mixed_ops_def engine_defs append_node_conv)
  from dual_structure_consistency [of hash0 ascii_lower demo_mixed_ops] ids g
  show ?thesis by simp
qed

text \<open>
  Claim C10. After every sequence of engine operations on the empty library and for every
  id, \<open>CodeShelfLibrary.search_by_id\<close> (the hash table) and \<open>LinkedList.search_by_id\<close> (the
  scan of the registry) return the same: the same \<open>Book\<close> object, or nothing.
\<close>

theorem lookup_equivalence:
  "search_by_id h (run h lower ops) k
     = LinkedList_search_by_id (book_store (run h lower ops)) (books (run h lower ops)) k"
  by (simp add: lookup_agree [OF consistent_run])

theorem lookup_equivalence_witness:
  "search_by_id hash0 (run hash0 ascii_lower demo_mixed_ops) ''B'' = Some 1
   \<and> LinkedList_search_by_id (book_store (run hash0 ascii_lower demo_mixed_ops))
        (books (run hash0 ascii_lower demo_mixed_ops)) ''B'' = Some 1
   \<and> search_by_id hash0 (run hash0 ascii_lower demo_mixed_ops) ''X'' = None
   \<and> LinkedList_search_by_id (book_store (run hash0 ascii_lower demo_mixed_ops))
        (books (run hash0 ascii_lower demo_mixed_ops)) ''X'' = None"
proof -
  have g: "search_by_id hash0 (run hash0 ascii_lower demo_mixed_ops) ''B'' = Some 1"
    "search_by_id hash0 (run hash0 ascii_lower demo_mixed_ops) ''X'' = None"
    by (simp_all add: demo_mixed_ops_def engine_defs append_node_conv)
  from lookup_equivalence [of hash0 ascii_lower demo_mixed_ops "''B''"]
    lookup_equivalence [of hash0 ascii_lower demo_mixed_ops "''X''"] g
  show ?thesis by simp
qed

text \<open>
  Claim C4. After every sequence of engine operations on the empty library, a book of the
  registry is borrowed exactly when the borrow history has exactly one open event for its
  id, and it has none when the book is available.
\<close>

theorem open_loan_invariant:
  "\<forall>b\<in>set (LinkedList_get_all_books (books (run h lower ops))).
     (is_borrowed (book_store (run h lower ops) b) \<longleftrightarrow>
        length (open_events (run h lower ops) (book_id (book_store (run h lower ops) b))) = 1)
     \<and> (\<not> is_borrowed (book_store (run h lower ops) b) \<longrightarrow>
        open_events (run h lower ops) (book_id (book_store (run h lower ops) b)) = [])"
  using open_events_invariant [OF consistent_run [of h lower ops] loans_ok_run [of h lower ops]]
  by (simp add: LinkedList_get_all_books_def)

theorem open_loan_invariant_witness:
  "LinkedList_get_all_books (books (run hash0 ascii_lower demo_ops)) = [0, 1]
   \<and> \<not> is_borrowed (book_store (run hash0 ascii_lower demo_ops) 0)
   \<and> open_events (run hash0 ascii_lower demo_ops) (book_id (book_store (run hash0 ascii_lower demo_ops) 0)) = []
   \<and> is_borrowed (book_store (run hash0 ascii_lower demo_ops) 1)
   \<and> length (open_events (run hash0 ascii_lower demo_ops) (book_id (book_store (run hash0 ascii_lower demo_ops) 1))) = 1
   \<and> borrow_history (run hash0 ascii_lower demo_ops) = [0, 1]"
proof -
  have e: "LinkedList_get_all_books (books (run hash0 ascii_lower demo_ops)) = [0, 1]"
    "\<not> is_borrowed (book_store (run hash0 ascii_lower demo_ops) 0)"
    "is_borrowed (book_store (run hash0 ascii_lower demo_ops) 1)"
    "borrow_history (run hash0 ascii_lower demo_ops) = [0, 1]"
    by (simp_all add: demo_ops_def engine_defs append_node_conv)
  from open_loan_invariant [of hash0 ascii_lower demo_ops] e
  show ?thesis by simp
qed

section \<open>The borrowing history\<close>

text \<open>
  Claim C9, as amended. \<open>display_borrow_history\<close> lists the events most recent first,
  that is in the reverse of the order in which they were pushed (\<open>Stack.get_all_items\<close>
  itself gives the push order and the display reverses it). In every state that a
  sequence of engine operations reaches: \<open>add_book\<close>, \<open>remove_book\<close>, \<open>display_all_books\<close>,
  a \<open>borrow_book\<close> that returns \<open>False\<close> and a \<open>return_book\<close> that returns \<open>False\<close> leave
  the rows as they are; a \<open>borrow_book\<close> that succeeds pushes one event, whose row comes
  in front of the rows shown before; \<open>return_book\<close> never changes which events the stack
  holds nor their order, and when it succeeds the one open event of the id gets its
  return date where it stands and every other row is as before. So after \<open>borrow(A)\<close>,
  \<open>borrow(B)\<close>, \<open>return(A)\<close> the first row is the open event of \<open>B\<close> and the second row
  is the closed event of \<open>A\<close>.
\<close>

theorem history_most_recent_first:
  assumes "s = run h lower ops"
  shows "display_borrow_history (snd (add_book h bid t a y s)) = display_borrow_history s
       \<and> display_borrow_history (snd (remove_book h bid s)) = display_borrow_history s
       \<and> display_borrow_history (snd (display_all_books lower sort_by s))
           = display_borrow_history s
       \<and> (fst (borrow_book h t1 t2 bid who s) \<longleftrightarrow>
            (\<exists>x. search_by_id h s bid = Some x \<and> \<not> is_borrowed (book_store s x)))
       \<and> (\<not> fst (borrow_book h t1 t2 bid who s) \<longrightarrow>
            display_borrow_history (snd (borrow_book h t1 t2 bid who s))
              = display_borrow_history s)
       \<and> (search_by_id h s bid = Some x \<and> \<not> is_borrowed (book_store s x) \<longrightarrow>
            Stack_get_all_items (borrow_history (snd (borrow_book h t1 t2 bid who s)))
              = Stack_get_all_items (borrow_history s) @ [record_next s]
            \<and> display_borrow_history (snd (borrow_book h t1 t2 bid who s))
                = (title (book_store s x), who, t2, None) # display_borrow_history s)
       \<and> (fst (fst (return_book h now bid s)) \<longleftrightarrow>
            (\<exists>x. search_by_id h s bid = Some x \<and> is_borrowed (book_store s x)))
       \<and> Stack_get_all_items (borrow_history (snd (return_book h now bid s)))
           = Stack_get_all_items (borrow_history s)
       \<and> (\<not> fst (fst (return_book h now bid s)) \<longrightarrow>
            display_borrow_history (snd (return_book h now bid s)) = display_borrow_history s)
       \<and> (search_by_id h s bid = Some x \<and> is_borrowed (book_store s x) \<longrightarrow>
            length (open_events s bid) = 1
            \<and> display_borrow_history (snd (return_book h now bid s))
                = map (\<lambda>r. if r \<in> set (open_events s bid)
                            then (title (book_store s (book (record_store s r))),
                                  borrower (record_store s r),
                                  br_borrow_date (record_store s r), Some now)
                            else history_row s r)
                    (rev (Stack_get_all_items (borrow_history s))))
       \<and> (search_by_id h s ida = Some xa \<and> search_by_id h s idb = Some xb \<and> ida \<noteq> idb
            \<and> \<not> is_borrowed (book_store s xa) \<and> \<not> is_borrowed (book_store s xb) \<longrightarrow>
            display_borrow_history
              (snd (return_book h t5 ida
                 (snd (borrow_book h t3 t4 idb ub (snd (borrow_book h t1' t2' ida ua s))))))
            = (title (book_store s xb), ub, t4, None)
              # (title (book_store s xa), ua, t2', Some t5) # display_borrow_history s)"
proof -
  note c = consistent_run [of h lower ops] and l = loans_ok_run [of h lower ops]
  let ?s = "run h lower ops"
  have "display_borrow_history (snd (add_book h bid t a y ?s)) = display_borrow_history ?s"
    by (rule display_add_book [OF l])
  moreover have "display_borrow_history (snd (remove_book h bid ?s)) = display_borrow_history ?s"
    by (rule display_remove_book)
  moreover have "display_borrow_history (snd (display_all_books lower sort_by ?s))
      = display_borrow_history ?s"
    by (rule display_display_all_books)
  moreover note borrow_book_succeeds_iff [of h t1 t2 bid who ?s]
  moreover have "\<not> fst (borrow_book h t1 t2 bid who ?s) \<longrightarrow>
      display_borrow_history (snd (borrow_book h t1 t2 bid who ?s)) = display_borrow_history ?s"
    by (simp add: display_borrow_fail)
  moreover have "search_by_id h ?s bid = Some x \<and> \<not> is_borrowed (book_store ?s x) \<longrightarrow>
      Stack_get_all_items (borrow_history (snd (borrow_book h t1 t2 bid who ?s)))
        = Stack_get_all_items (borrow_history ?s) @ [record_next ?s]
      \<and> display_borrow_history (snd (borrow_book h t1 t2 bid who ?s))
          = (title (book_store ?s x), who, t2, None) # display_borrow_history ?s"
    by (simp add: history_borrow_success display_borrow_success [OF l])
  moreover note return_book_succeeds_iff [of h now bid ?s]
  moreover note history_return_book [of h now bid ?s]
  moreover have "\<not> fst (fst (return_book h now bid ?s)) \<longrightarrow>
      display_borrow_history (snd (return_book h now bid ?s)) = display_borrow_history ?s"
    by (simp add: return_book_False_state)
  moreover have "search_by_id h ?s bid = Some x \<and> is_borrowed (book_store ?s x) \<longrightarrow>
      length (open_events ?s bid) = 1
      \<and> display_borrow_history (snd (return_book h now bid ?s))
          = map (\<lambda>r. if r \<in> set (open_events ?s bid)
                      then (title (book_store ?s (book (record_store ?s r))),
                            borrower (record_store ?s r),
                            br_borrow_date (record_store ?s r), Some now)
                      else history_row ?s r)
              (rev (Stack_get_all_items (borrow_history ?s)))"
    using display_return_success [OF c l, of bid x now] by blast
  moreover have "search_by_id h ?s ida = Some xa \<and> search_by_id h ?s idb = Some xb \<and> ida \<noteq> idb
      \<and> \<not> is_borrowed (book_store ?s xa) \<and> \<not> is_borrowed (book_store ?s xb) \<longrightarrow>
      display_borrow_history
        (snd (return_book h t5 ida
           (snd (borrow_book h t3 t4 idb ub (snd (borrow_book h t1' t2' ida ua ?s))))))
      = (title (book_store ?s xb), ub, t4, None)
        # (title (book_store ?s xa), ua, t2', Some t5) # display_borrow_history ?s"
    using display_borrow_borrow_return [OF c l] by blast
  ultimately show ?thesis
    unfolding assms by (intro conjI)
qed

theorem history_most_recent_first_witness:
  "search_by_id hash0 (run hash0 ascii_lower demo_ops) ''B'' = Some 1
   \<and> is_borrowed (book_store (run hash0 ascii_lower demo_ops) 1)
   \<and> display_borrow_history (run hash0 ascii_lower demo_ops)
       = [(''alpha book'', ''u2'', 7, None), (''Zebra Book'', ''u1'', 5, Some 8)]
   \<and> display_borrow_history (snd (return_book hash0 9 ''B'' (run hash0 ascii_lower demo_ops)))
       = [(''alpha book'', ''u2'', 7, Some 9), (''Zebra Book'', ''u1'', 5, Some 8)]
   \<and> search_by_id hash0 (run hash0 ascii_lower demo_two_books) ''A'' = Some 0
   \<and> search_by_id hash0 (run hash0 ascii_lower demo_two_books) ''B'' = Some 1
   \<and> \<not> is_borrowed (book_store (run hash0 ascii_lower demo_two_books) 0)
   \<and> \<not> is_borrowed (book_store (run hash0 ascii_lower demo_two_books) 1)
   \<and> display_borrow_history
        (snd (borrow_book hash0 4 5 ''A'' ''u1'' (run hash0 ascii_lower demo_two_books)))
       = [(''Zebra Book'', ''u1'', 5, None)]
   \<and> display_borrow_history
        (snd (return_book hash0 8 ''A''
           (snd (borrow_book hash0 6 7 ''B'' ''u2''
              (snd (borrow_book hash0 4 5 ''A'' ''u1''
                 (run hash0 ascii_lower demo_two_books)))))))
       = [(''alpha book'', ''u2'', 7, None), (''Zebra Book'', ''u1'', 5, Some 8)]"
proof -
  have gb: "search_by_id hash0 (run hash0 ascii_lower demo_ops) ''B'' = Some 1"
    and ob: "is_borrowed (book_store (run hash0 ascii_lower demo_ops) 1)"
    and hist: "Stack_get_all_items (borrow_history (run hash0 ascii_lower demo_ops)) = [0, 1]"
    and oe: "open_events (run hash0 ascii_lower demo_ops) ''B'' = [1]"
    and r0: "history_row (run hash0 ascii_lower demo_ops) 0 = (''Zebra Book'', ''u1'', 5, Some 8)"
    and r1: "title (book_store (run hash0 ascii_lower demo_ops)
                      (book (record_store (run hash0 ascii_lower demo_ops) 1))) = ''alpha book''"
      "borrower (record_store (run hash0 ascii_lower demo_ops) 1) = ''u2''"
      "br_borrow_date (record_store (run hash0 ascii_lower demo_ops) 1) = 7"
    and d0: "display_borrow_history (run hash0 ascii_lower demo_ops)
               = [(''alpha book'', ''u2'', 7, None), (''Zebra Book'', ''u1'', 5, Some 8)]"
    by (simp_all add: demo_ops_def engine_defs append_node_conv open_events_def
        record_book_id_def)
  have fa: "search_by_id hash0 (run hash0 ascii_lower demo_two_books) ''A'' = Some 0"
    and fb: "search_by_id hash0 (run hash0 ascii_lower demo_two_books) ''B'' = Some 1"
    and aa: "\<not> is_borrowed (book_store (run hash0 ascii_lower demo_two_books) 0)"
    and ab: "\<not> is_borrowed (book_store (run hash0 ascii_lower demo_two_books) 1)"
    and ta: "title (book_store (run hash0 ascii_lower demo_two_books) 0) = ''Zebra Book''"
    and tb: "title (book_store (run hash0 ascii_lower demo_two_books) 1) = ''alpha book''"
    and d: "display_borrow_history (run hash0 ascii_lower demo_two_books) = []"
    by (simp_all add: demo_two_books_def engine_defs append_node_conv)
  have ne: "''A'' \<noteq> ''B''" by simp
  note ret = history_most_recent_first
    [OF refl, where h = hash0 and lower = ascii_lower and ops = demo_ops
       and bid = "''B''" and x = 1 and now = 9]
  note scen = history_most_recent_first
    [OF refl, where h = hash0 and lower = ascii_lower and ops = demo_two_books
       and bid = "''A''" and x = 0 and ?t1.0 = 4 and ?t2.0 = 5 and who = "''u1''"
       and ida = "''A''" and xa = 0 and idb = "''B''" and xb = 1
       and ?t5.0 = 8 and ?t3.0 = 6 and ?t4.0 = 7 and ub = "''u2''"
       and t1' = 4 and t2' = 5 and ua = "''u1''"]
  from ret gb ob hist oe r0 r1
  have "display_borrow_history (snd (return_book hash0 9 ''B'' (run hash0 ascii_lower demo_ops)))
          = [(''alpha book'', ''u2'', 7, Some 9), (''Zebra Book'', ''u1'', 5, Some 8)]"
    by simp
  moreover from scen fa fb aa ab ta tb d ne
  have "display_borrow_history
          (snd (borrow_book hash0 4 5 ''A'' ''u1'' (run hash0 ascii_lower demo_two_books)))
        = [(''Zebra Book'', ''u1'', 5, None)]"
    and "display_borrow_history
          (snd (return_book hash0 8 ''A''
             (snd (borrow_book hash0 6 7 ''B'' ''u2''
                (snd (borrow_book hash0 4 5 ''A'' ''u1''
                   (run hash0 ascii_lower demo_two_books)))))))
        = [(''alpha book'', ''u2'', 7, None), (''Zebra Book'', ''u1'', 5, Some 8)]"
    by simp_all
  ultimately show ?thesis using gb ob d0 fa fb aa ab by simp
qed

text \<open>
  Claim C9 as the specification states it fails: after \<open>borrow(A)\<close>, \<open>borrow(B)\<close>,
  \<open>return(A)\<close> (the run \<open>demo_ops\<close>) the first row is the open event of \<open>B\<close>, not the
  closed event of \<open>A\<close>.
\<close>

theorem history_order_counterexample:
  "display_borrow_history (run hash0 ascii_lower demo_ops)
     = [(''alpha book'', ''u2'', 7, None), (''Zebra Book'', ''u1'', 5, Some 8)]"
  by (simp add: demo_ops_def engine_defs append_node_conv)

end
